theory Spec2Isabelle
  imports Main "HOL-Library.Word"
begin

unbundle bit_operations_syntax

section \<open>ANB\_FifoSlab: a growable FIFO byte slab with an item index\<close>

text \<open>
  The repository holds two revisions of \<^verbatim>\<open>fifoslab.c\<close>.

  \<^item> The byte-level revision (\<^verbatim>\<open>src/unnamed/part_001\<close>) has \<^verbatim>\<open>push\<close>, \<^verbatim>\<open>peek\<close>,
    \<^verbatim>\<open>pop\<close>, \<^verbatim>\<open>peek_size\<close> and the item operations; it stores one aligned length per
    item and reports aligned lengths.
  \<^item> The length-preserving revision (\<^verbatim>\<open>src/unnamed/part_000\<close>) has \<^verbatim>\<open>push_item\<close>,
    \<^verbatim>\<open>size\<close> and the item operations; it adds the parallel array \<^verbatim>\<open>pad_index\<close> and
    reports original lengths.

  Both are embedded. Functions of \<^verbatim>\<open>part_000\<close> keep the source's names; a function of
  \<^verbatim>\<open>part_001\<close> whose name also occurs in \<^verbatim>\<open>part_000\<close> carries the suffix \<open>_raw\<close>.

  Platform: \<^verbatim>\<open>size_t\<close> is a 64-bit word, \<^verbatim>\<open>uint8_t\<close> an 8-bit word (LP64). Arrays are
  lists; a pointer into \<^verbatim>\<open>data\<close> is its byte offset from \<^verbatim>\<open>queue->data\<close>, a \<^verbatim>\<open>size_t\<close>, and
  a \<^verbatim>\<open>NULL\<close> result is \<open>None\<close>. A peek or pop returns its result together with the queue
  after the call. A push returns the queue after the call or the failed assertion, inside
  an \<open>option\<close> whose \<open>None\<close> means that the call does not return. A parameter that the
  header documents as "must not be NULL" is a plain value (its \<^verbatim>\<open>assert\<close> cannot fire); a
  parameter the header allows to be \<^verbatim>\<open>NULL\<close> is an \<open>option\<close>. The heap is assumed to
  satisfy every request, so the \<^verbatim>\<open>assert\<close>s on the results of \<^verbatim>\<open>malloc\<close> and \<^verbatim>\<open>realloc\<close>
  pass; fresh heap bytes, indeterminate in C, are zero here and no theorem reads them.
  An array access outside its list is undefined behaviour in C and unspecified here: the
  theorems that read the arrays assume the invariant \<open>slab_inv\<close>, under which every
  access is in range. \<^verbatim>\<open>ANB_fifoslab_destroy\<close> only frees memory and is not modelled. The
  iterator fields \<^verbatim>\<open>_item_idx\<close> and \<^verbatim>\<open>_byte_offset\<close> are \<open>item_idx\<close> and \<open>byte_offset\<close>.
\<close>

type_synonym size_t = "64 word"
type_synonym uint8_t = "8 word"

datatype error = AssertFail | NullDeref

text \<open>
  Modelled from the spec: \<^verbatim>\<open>_Alignof(max_align_t)\<close> is a constant of the compiler, not of
  the repository; the spec calls it "a fixed, platform-chosen power-of-two (the target's
  maximum scalar alignment, e.g. 8 or 16 bytes)". It is 16 on the LP64 targets that give
  \<^verbatim>\<open>size_t\<close> 64 bits.
\<close>

definition max_align :: size_t where
  "max_align = 16"

definition SIZE_MAX :: size_t where
  "SIZE_MAX = - 1"

definition ANB_FS_ALIGN_UP :: "size_t \<Rightarrow> size_t" where
  "ANB_FS_ALIGN_UP x = (x + max_align - 1) AND NOT (max_align - 1)"

definition ANB_FS_INITIAL_INDEX_CAP :: size_t where
  "ANB_FS_INITIAL_INDEX_CAP = 64"

subsection \<open>The queue\<close>

text \<open>
  \<^verbatim>\<open>struct ANB_FifoSlab\<close> of \<^verbatim>\<open>part_001\<close>; the struct of \<^verbatim>\<open>part_000\<close> extends it by
  \<^verbatim>\<open>pad_index\<close>. The field \<^verbatim>\<open>size\<close> is \<open>size_total\<close> here.
\<close>

record ANB_FifoSlab_raw =
  data :: "uint8_t list"
  write_pos :: size_t
  read_pos :: size_t
  size_total :: size_t
  index :: "size_t list"
  index_write :: size_t
  index_read :: size_t
  index_cap :: size_t

record ANB_FifoSlab = ANB_FifoSlab_raw +
  pad_index :: "uint8_t list"

record ANB_FifoSlabIter =
  item_idx :: size_t
  byte_offset :: size_t

subsection \<open>Heap and array primitives\<close>

text \<open>\<^verbatim>\<open>realloc(p, n)\<close>: the first \<open>min n (length p)\<close> cells are kept.\<close>

definition realloc :: "'a::zero list \<Rightarrow> nat \<Rightarrow> 'a list" where
  "realloc xs n = take n xs @ replicate (n - length xs) 0"

text \<open>\<^verbatim>\<open>memcpy(buf + off, src, n)\<close> and \<^verbatim>\<open>memset(buf + off, c, n)\<close>.\<close>

definition memcpy :: "uint8_t list \<Rightarrow> nat \<Rightarrow> uint8_t list \<Rightarrow> nat \<Rightarrow> uint8_t list" where
  "memcpy buf off src n = fold (\<lambda>i b. b[off + i := src ! i]) [0..<n] buf"

definition memset :: "uint8_t list \<Rightarrow> nat \<Rightarrow> uint8_t \<Rightarrow> nat \<Rightarrow> uint8_t list" where
  "memset buf off c n = fold (\<lambda>i b. b[off + i := c]) [0..<n] buf"

subsection \<open>Creation\<close>

definition ANB_fifoslab_create_raw :: "size_t \<Rightarrow> error + ANB_FifoSlab_raw" where
  "ANB_fifoslab_create_raw initial_size =
     (if \<not> initial_size > 0 then Inl AssertFail
      else Inr \<lparr>data = replicate (unat initial_size) 0,
                write_pos = 0, read_pos = 0, size_total = initial_size,
                index = replicate (unat ANB_FS_INITIAL_INDEX_CAP) 0,
                index_write = 0, index_read = 0,
                index_cap = ANB_FS_INITIAL_INDEX_CAP\<rparr>)"

definition ANB_fifoslab_create :: "size_t \<Rightarrow> error + ANB_FifoSlab" where
  "ANB_fifoslab_create initial_size =
     (if \<not> initial_size > 0 then Inl AssertFail
      else Inr \<lparr>data = replicate (unat initial_size) 0,
                write_pos = 0, read_pos = 0, size_total = initial_size,
                index = replicate (unat ANB_FS_INITIAL_INDEX_CAP) 0,
                index_write = 0, index_read = 0,
                index_cap = ANB_FS_INITIAL_INDEX_CAP,
                pad_index = replicate (unat ANB_FS_INITIAL_INDEX_CAP) 0\<rparr>)"

subsection \<open>Growth of the data buffer\<close>

text \<open>
  The doubling loop of \<^verbatim>\<open>push\<close> and \<^verbatim>\<open>push_item\<close>:
  \<^verbatim>\<open>while (new_size < need) { assert(new_size < SIZE_MAX / 2); new_size *= 2; }\<close>.
  The loop need not terminate (from \<open>new_size = 0\<close> it does not), so it is a partial
  function: \<open>None\<close> is "does not return".
\<close>

partial_function (option) grow_size :: "size_t \<Rightarrow> size_t \<Rightarrow> (error + size_t) option" where
  "grow_size new_size need =
     (if new_size < need
      then (if \<not> new_size < SIZE_MAX div 2 then Some (Inl AssertFail)
            else grow_size (new_size * 2) need)
      else Some (Inr new_size))"

text \<open>The block "Expand data buffer if needed", the same in both revisions.\<close>

definition expand_data ::
  "'a ANB_FifoSlab_raw_scheme \<Rightarrow> size_t \<Rightarrow> (error + 'a ANB_FifoSlab_raw_scheme) option" where
  "expand_data queue aligned_len =
     (if write_pos queue + aligned_len > size_total queue
      then (case grow_size (size_total queue) (write_pos queue + aligned_len) of
              None \<Rightarrow> None
            | Some (Inl e) \<Rightarrow> Some (Inl e)
            | Some (Inr new_size) \<Rightarrow>
                Some (Inr (queue\<lparr>data := realloc (data queue) (unat new_size),
                                 size_total := new_size\<rparr>)))
      else Some (Inr queue))"

text \<open>The block "Copy data into buffer and zero padding", the same in both revisions.\<close>

definition copy_in ::
  "'a ANB_FifoSlab_raw_scheme \<Rightarrow> uint8_t list \<Rightarrow> size_t \<Rightarrow> size_t \<Rightarrow> 'a ANB_FifoSlab_raw_scheme" where
  "copy_in queue d data_len aligned_len =
     (let buf = memcpy (data queue) (unat (write_pos queue)) d (unat data_len);
          buf = (if aligned_len > data_len
                 then memset buf (unat (write_pos queue) + unat data_len) 0 (unat (aligned_len - data_len))
                 else buf)
      in queue\<lparr>data := buf, write_pos := write_pos queue + aligned_len\<rparr>)"

subsection \<open>Push\<close>

text \<open>\<^verbatim>\<open>ANB_fifoslab_push\<close> (\<^verbatim>\<open>part_001\<close>).\<close>

definition ANB_fifoslab_push ::
  "ANB_FifoSlab_raw \<Rightarrow> uint8_t list \<Rightarrow> size_t \<Rightarrow> (error + ANB_FifoSlab_raw) option" where
  "ANB_fifoslab_push queue d data_len =
     (let aligned_len = ANB_FS_ALIGN_UP data_len in
      case expand_data queue aligned_len of
        None \<Rightarrow> None
      | Some (Inl e) \<Rightarrow> Some (Inl e)
      | Some (Inr q1) \<Rightarrow>
          let q2 = copy_in q1 d data_len aligned_len;
              q3 = (if index_write q2 \<ge> index_cap q2
                    then (let new_cap = index_cap q2 * 2
                          in q2\<lparr>index := realloc (index q2) (unat new_cap),
                                index_cap := new_cap\<rparr>)
                    else q2)
          in Some (Inr (q3\<lparr>index := (index q3)[unat (index_write q3) := aligned_len],
                           index_write := index_write q3 + 1\<rparr>)))"

text \<open>\<^verbatim>\<open>ANB_fifoslab_push_item\<close> (\<^verbatim>\<open>part_000\<close>).\<close>

definition ANB_fifoslab_push_item ::
  "ANB_FifoSlab \<Rightarrow> uint8_t list \<Rightarrow> size_t \<Rightarrow> (error + ANB_FifoSlab) option" where
  "ANB_fifoslab_push_item queue d data_len =
     (let aligned_len = ANB_FS_ALIGN_UP data_len in
      case expand_data queue aligned_len of
        None \<Rightarrow> None
      | Some (Inl e) \<Rightarrow> Some (Inl e)
      | Some (Inr q1) \<Rightarrow>
          let q2 = copy_in q1 d data_len aligned_len;
              q3 = (if index_write q2 \<ge> index_cap q2
                    then (let new_cap = index_cap q2 * 2
                          in q2\<lparr>index := realloc (index q2) (unat new_cap),
                                pad_index := realloc (pad_index q2) (unat new_cap),
                                index_cap := new_cap\<rparr>)
                    else q2);
              q4 = q3\<lparr>pad_index := (pad_index q3)[unat (index_write q3) :=
                                        (ucast (aligned_len - data_len) :: uint8_t)]\<rparr>
          in Some (Inr (q4\<lparr>index := (index q4)[unat (index_write q4) := aligned_len],
                           index_write := index_write q4 + 1\<rparr>)))"

subsection \<open>Aggregate queries\<close>

definition ANB_fifoslab_size :: "ANB_FifoSlab \<Rightarrow> size_t \<times> ANB_FifoSlab" where
  "ANB_fifoslab_size queue = (write_pos queue - read_pos queue, queue)"

definition ANB_fifoslab_peek_size :: "ANB_FifoSlab_raw \<Rightarrow> size_t \<times> ANB_FifoSlab_raw" where
  "ANB_fifoslab_peek_size queue = (write_pos queue - read_pos queue, queue)"

definition ANB_fifoslab_item_count :: "ANB_FifoSlab \<Rightarrow> size_t \<times> ANB_FifoSlab" where
  "ANB_fifoslab_item_count queue = (index_write queue - index_read queue, queue)"

definition ANB_fifoslab_item_count_raw :: "ANB_FifoSlab_raw \<Rightarrow> size_t \<times> ANB_FifoSlab_raw" where
  "ANB_fifoslab_item_count_raw queue = (index_write queue - index_read queue, queue)"

subsection \<open>Indexed peek\<close>

text \<open>
  The offset walk of \<^verbatim>\<open>peek_item\<close>:
  \<^verbatim>\<open>for (i = index_read; i < index_read + n; i++) offset += index[i];\<close>
\<close>

function walk_offset :: "size_t list \<Rightarrow> size_t \<Rightarrow> size_t \<Rightarrow> size_t \<Rightarrow> size_t" where
  "walk_offset idx i bound offset =
     (if i < bound then walk_offset idx (i + 1) bound (offset + idx ! unat i) else offset)"
  by pat_completeness auto
termination
proof (relation "measure (\<lambda>(idx, i, bound, offset). unat bound - unat i)")
  show "wf (measure (\<lambda>(idx, i, bound, offset). unat bound - unat i))"
    by simp
next
  fix idx :: "size_t list" and i bound offset :: size_t
  assume lt: "i < bound"
  have "unat (i + 1) = unat i + 1"
    using lt
    by (metis (no_types, lifting) add.commute add_0 inc_i inc_le
        unat_plus_simple unsigned_0 unsigned_1 word_gt_0)
  moreover have "unat i < unat bound"
    using lt by (simp add: word_less_nat_alt)
  ultimately show "((idx, i + 1, bound, offset + idx ! unat i), (idx, i, bound, offset))
      \<in> measure (\<lambda>(idx, i, bound, offset). unat bound - unat i)"
    by simp
qed

declare walk_offset.simps [simp del]

text \<open>
  \<^verbatim>\<open>ANB_fifoslab_peek_item\<close> (\<^verbatim>\<open>part_000\<close>). \<open>out_size\<close> is the cell \<^verbatim>\<open>out_size\<close> points
  to (\<open>None\<close> for a \<^verbatim>\<open>NULL\<close> pointer); the result holds the view, the cell after the call
  and the queue. The out-of-range branch stores through \<^verbatim>\<open>out_size\<close> without testing it.
\<close>

definition ANB_fifoslab_peek_item ::
  "ANB_FifoSlab \<Rightarrow> size_t \<Rightarrow> size_t option \<Rightarrow> error + (size_t option \<times> size_t option \<times> ANB_FifoSlab)" where
  "ANB_fifoslab_peek_item queue n out_size =
     (if n \<ge> index_write queue - index_read queue
      then (case out_size of
              None \<Rightarrow> Inl NullDeref
            | Some _ \<Rightarrow> Inr (None, Some 0, queue))
      else (let offset = walk_offset (index queue) (index_read queue) (index_read queue + n)
                           (read_pos queue);
                abs_idx = index_read queue + n;
                item_size = index queue ! unat abs_idx - ucast (pad_index queue ! unat abs_idx)
            in Inr (Some offset,
                    (case out_size of None \<Rightarrow> None | Some _ \<Rightarrow> Some item_size),
                    queue)))"

text \<open>\<^verbatim>\<open>ANB_fifoslab_peek_item\<close> (\<^verbatim>\<open>part_001\<close>).\<close>

definition ANB_fifoslab_peek_item_raw ::
  "ANB_FifoSlab_raw \<Rightarrow> size_t \<Rightarrow> size_t option \<Rightarrow> size_t option \<times> size_t option \<times> ANB_FifoSlab_raw" where
  "ANB_fifoslab_peek_item_raw queue n out_size =
     (if n \<ge> index_write queue - index_read queue
      then (None, out_size, queue)
      else (let offset = walk_offset (index queue) (index_read queue) (index_read queue + n)
                           (read_pos queue);
                item_size = index queue ! unat (index_read queue + n)
            in (Some offset,
                (case out_size of None \<Rightarrow> None | Some _ \<Rightarrow> Some item_size),
                queue)))"

subsection \<open>Iterator\<close>

text \<open>
  \<^verbatim>\<open>ANB_fifoslab_peek_item_iter\<close> (\<^verbatim>\<open>part_000\<close>): the view, the iterator and the cell of
  \<^verbatim>\<open>out_size\<close> after the call, and the queue.
\<close>

definition ANB_fifoslab_peek_item_iter ::
  "ANB_FifoSlab \<Rightarrow> ANB_FifoSlabIter \<Rightarrow> size_t option
     \<Rightarrow> size_t option \<times> ANB_FifoSlabIter \<times> size_t option \<times> ANB_FifoSlab" where
  "ANB_fifoslab_peek_item_iter queue iter out_size =
     (let abs_idx = index_read queue + item_idx iter in
      if abs_idx \<ge> index_write queue then (None, iter, out_size, queue)
      else (let aligned_size = index queue ! unat abs_idx;
                out' = (case out_size of
                          None \<Rightarrow> None
                        | Some _ \<Rightarrow> Some (aligned_size - ucast (pad_index queue ! unat abs_idx)));
                ptr = read_pos queue + byte_offset iter
            in (Some ptr,
                iter\<lparr>item_idx := item_idx iter + 1,
                     byte_offset := byte_offset iter + aligned_size\<rparr>,
                out', queue)))"

text \<open>\<^verbatim>\<open>ANB_fifoslab_peek_item_iter\<close> (\<^verbatim>\<open>part_001\<close>).\<close>

definition ANB_fifoslab_peek_item_iter_raw ::
  "ANB_FifoSlab_raw \<Rightarrow> ANB_FifoSlabIter \<Rightarrow> size_t option
     \<Rightarrow> size_t option \<times> ANB_FifoSlabIter \<times> size_t option \<times> ANB_FifoSlab_raw" where
  "ANB_fifoslab_peek_item_iter_raw queue iter out_size =
     (let abs_idx = index_read queue + item_idx iter in
      if abs_idx \<ge> index_write queue then (None, iter, out_size, queue)
      else (let item_size = index queue ! unat abs_idx;
                out' = (case out_size of None \<Rightarrow> None | Some _ \<Rightarrow> Some item_size);
                ptr = read_pos queue + byte_offset iter
            in (Some ptr,
                iter\<lparr>item_idx := item_idx iter + 1,
                     byte_offset := byte_offset iter + item_size\<rparr>,
                out', queue)))"

subsection \<open>Pop\<close>

text \<open>The block "If all data consumed, reset everything", shared by every pop.\<close>

definition drain_reset :: "'a ANB_FifoSlab_raw_scheme \<Rightarrow> 'a ANB_FifoSlab_raw_scheme" where
  "drain_reset queue =
     (if read_pos queue = write_pos queue
      then queue\<lparr>read_pos := 0, write_pos := 0, index_read := 0, index_write := 0\<rparr>
      else queue)"

text \<open>\<^verbatim>\<open>ANB_fifoslab_pop_item\<close> (\<^verbatim>\<open>part_000\<close>).\<close>

definition ANB_fifoslab_pop_item :: "ANB_FifoSlab \<Rightarrow> size_t \<times> ANB_FifoSlab" where
  "ANB_fifoslab_pop_item queue =
     (if index_read queue \<ge> index_write queue then (0, queue)
      else (let idx = index_read queue;
                q1 = queue\<lparr>index_read := index_read queue + 1\<rparr>;
                aligned_size = index q1 ! unat idx;
                item_size = aligned_size - ucast (pad_index q1 ! unat idx);
                q2 = q1\<lparr>read_pos := read_pos q1 + aligned_size\<rparr>
            in (item_size, drain_reset q2)))"

text \<open>\<^verbatim>\<open>ANB_fifoslab_pop_item\<close> (\<^verbatim>\<open>part_001\<close>).\<close>

definition ANB_fifoslab_pop_item_raw :: "ANB_FifoSlab_raw \<Rightarrow> size_t \<times> ANB_FifoSlab_raw" where
  "ANB_fifoslab_pop_item_raw queue =
     (if index_read queue \<ge> index_write queue then (0, queue)
      else (let item_size = index queue ! unat (index_read queue);
                q1 = queue\<lparr>index_read := index_read queue + 1\<rparr>;
                q2 = q1\<lparr>read_pos := read_pos q1 + item_size\<rparr>
            in (item_size, drain_reset q2)))"

subsection \<open>Byte-level peek and pop (\<^verbatim>\<open>part_001\<close>)\<close>

text \<open>The queue pointer of \<^verbatim>\<open>peek\<close> and \<^verbatim>\<open>pop\<close> may be \<^verbatim>\<open>NULL\<close>: it is an \<open>option\<close>.\<close>

definition ANB_fifoslab_peek ::
  "ANB_FifoSlab_raw option \<Rightarrow> size_t \<Rightarrow> size_t option \<times> ANB_FifoSlab_raw option" where
  "ANB_fifoslab_peek queue requested_len =
     (case queue of
        None \<Rightarrow> (None, queue)
      | Some q \<Rightarrow>
          if requested_len = 0 \<or> requested_len > write_pos q - read_pos q then (None, queue)
          else (Some (read_pos q), queue))"

text \<open>
  The index loop of \<^verbatim>\<open>pop\<close>:
  \<^verbatim>\<open>while (remaining > 0 && index_read < index_write) { ... }\<close>
\<close>

function pop_loop :: "ANB_FifoSlab_raw \<Rightarrow> size_t \<Rightarrow> ANB_FifoSlab_raw" where
  "pop_loop queue remaining =
     (if remaining > 0 \<and> index_read queue < index_write queue
      then (let item_size = index queue ! unat (index_read queue) in
            if remaining \<ge> item_size
            then pop_loop (queue\<lparr>index_read := index_read queue + 1\<rparr>) (remaining - item_size)
            else pop_loop (queue\<lparr>index := (index queue)[unat (index_read queue) :=
                                     index queue ! unat (index_read queue) - remaining]\<rparr>) 0)
      else queue)"
  by pat_completeness auto
termination
proof (relation "measure (\<lambda>(q, r). 2 * unat (index_write q - index_read q) + (if r > 0 then 1 else 0))")
  show "wf (measure (\<lambda>(q, r). 2 * unat (index_write q - index_read q) + (if r > 0 then 1 else 0)))"
    by simp
next
  fix queue :: ANB_FifoSlab_raw and remaining item_size :: size_t
  assume a: "0 < remaining \<and> index_read queue < index_write queue"
  then have lt: "index_read queue < index_write queue" by simp
  have "index_write queue - (index_read queue + 1) = index_write queue - index_read queue - 1"
    by simp
  moreover have "index_write queue - index_read queue \<noteq> 0"
    using lt by simp
  ultimately have "unat (index_write queue - (index_read queue + 1))
      < unat (index_write queue - index_read queue)"
    by (metis unat_minus_one diff_less unat_eq_zero zero_less_one not_gr_zero)
  then show "((queue\<lparr>index_read := index_read queue + 1\<rparr>, remaining - item_size), (queue, remaining))
      \<in> measure (\<lambda>(q, r). 2 * unat (index_write q - index_read q) + (if r > 0 then 1 else 0))"
    by simp
next
  fix queue :: ANB_FifoSlab_raw and remaining item_size :: size_t
  assume a: "0 < remaining \<and> index_read queue < index_write queue"
  then show "((queue\<lparr>index := (index queue)[unat (index_read queue) :=
                  index queue ! unat (index_read queue) - remaining]\<rparr>, 0), (queue, remaining))
      \<in> measure (\<lambda>(q, r). 2 * unat (index_write q - index_read q) + (if r > 0 then 1 else 0))"
    by simp
qed

declare pop_loop.simps [simp del]

definition ANB_fifoslab_pop ::
  "ANB_FifoSlab_raw option \<Rightarrow> size_t \<Rightarrow> size_t \<times> ANB_FifoSlab_raw option" where
  "ANB_fifoslab_pop queue requested_len =
     (case fst (ANB_fifoslab_peek queue requested_len) of
        None \<Rightarrow> (0, queue)
      | Some _ \<Rightarrow>
          (case queue of
             None \<Rightarrow> (0, queue)
           | Some q \<Rightarrow>
               (let q1 = q\<lparr>read_pos := read_pos q + requested_len\<rparr>;
                    q2 = pop_loop q1 requested_len
                in (requested_len, Some (drain_reset q2)))))"

subsection \<open>Live region, invariant and reachable states\<close>

text \<open>
  The live index entries are those in \<open>[index_read, index_write)\<close>; \<open>live_lens\<close> are the
  lengths the padded revision reports for them (\<open>aligned_len - pad\<close>).
\<close>

definition live_entries :: "'a ANB_FifoSlab_raw_scheme \<Rightarrow> size_t list" where
  "live_entries q =
     take (unat (index_write q) - unat (index_read q)) (drop (unat (index_read q)) (index q))"

definition live_pads :: "ANB_FifoSlab \<Rightarrow> uint8_t list" where
  "live_pads q =
     take (unat (index_write q) - unat (index_read q)) (drop (unat (index_read q)) (pad_index q))"

definition live_lens :: "ANB_FifoSlab \<Rightarrow> size_t list" where
  "live_lens q = map2 (\<lambda>a p. a - ucast p) (live_entries q) (live_pads q)"

text \<open>
  \<open>cursors_ok\<close>: the cursor and capacity bounds of the data model
  (\<open>0 \<le> read_pos \<le> write_pos \<le> size\<close>, the same for the index, arrays as long as their
  capacities, capacities positive as \<^verbatim>\<open>create\<close> asserts).
  \<open>lockstep\<close>: the live entries sum to the live bytes, with no wrap-around.
\<close>

definition cursors_ok :: "'a ANB_FifoSlab_raw_scheme \<Rightarrow> bool" where
  "cursors_ok q \<longleftrightarrow>
     read_pos q \<le> write_pos q \<and> write_pos q \<le> size_total q \<and> 0 < size_total q \<and>
     length (data q) = unat (size_total q) \<and>
     index_read q \<le> index_write q \<and> index_write q \<le> index_cap q \<and> 0 < index_cap q \<and>
     length (index q) = unat (index_cap q)"

definition lockstep :: "'a ANB_FifoSlab_raw_scheme \<Rightarrow> bool" where
  "lockstep q \<longleftrightarrow>
     sum_list (map unat (live_entries q)) = unat (write_pos q - read_pos q)"

definition slab_inv :: "'a ANB_FifoSlab_raw_scheme \<Rightarrow> bool" where
  "slab_inv q \<longleftrightarrow> cursors_ok q \<and> lockstep q"

definition pads_ok :: "ANB_FifoSlab \<Rightarrow> bool" where
  "pads_ok q \<longleftrightarrow>
     length (pad_index q) = length (index q) \<and>
     list_all2 (\<lambda>p a. unat p \<le> unat a) (live_pads q) (live_entries q)"

definition slab_inv_pad :: "ANB_FifoSlab \<Rightarrow> bool" where
  "slab_inv_pad q \<longleftrightarrow> slab_inv q \<and> pads_ok q"

text \<open>
  A push request the C code can execute without undefined behaviour: \<open>d\<close> holds
  \<open>data_len\<close> bytes, and none of \<open>data_len + 15\<close>, \<open>write_pos + ALIGN_UP(data_len)\<close> and
  the doubled index capacity wraps around \<^verbatim>\<open>size_t\<close>.
\<close>

definition push_fits :: "'a ANB_FifoSlab_raw_scheme \<Rightarrow> uint8_t list \<Rightarrow> size_t \<Rightarrow> bool" where
  "push_fits q d data_len \<longleftrightarrow>
     unat data_len \<le> length d \<and>
     unat data_len + 15 < 2 ^ 64 \<and>
     unat (write_pos q) + unat (ANB_FS_ALIGN_UP data_len) < 2 ^ 64 \<and>
     unat (index_cap q) < 2 ^ 63"

text \<open>States reachable through the public operations of each revision.\<close>

inductive reach_raw :: "ANB_FifoSlab_raw \<Rightarrow> bool" where
  reach_raw_create: "ANB_fifoslab_create_raw n = Inr q \<Longrightarrow> reach_raw q"
| reach_raw_push:
    "reach_raw q \<Longrightarrow> push_fits q d l \<Longrightarrow> ANB_fifoslab_push q d l = Some (Inr q') \<Longrightarrow> reach_raw q'"
| reach_raw_pop:
    "reach_raw q \<Longrightarrow> ANB_fifoslab_pop (Some q) n = (r, Some q') \<Longrightarrow> reach_raw q'"
| reach_raw_pop_item:
    "reach_raw q \<Longrightarrow> ANB_fifoslab_pop_item_raw q = (r, q') \<Longrightarrow> reach_raw q'"

inductive reach :: "ANB_FifoSlab \<Rightarrow> bool" where
  reach_create: "ANB_fifoslab_create n = Inr q \<Longrightarrow> reach q"
| reach_push_item:
    "reach q \<Longrightarrow> push_fits q d l \<Longrightarrow> ANB_fifoslab_push_item q d l = Some (Inr q') \<Longrightarrow> reach q'"
| reach_pop_item:
    "reach q \<Longrightarrow> ANB_fifoslab_pop_item q = (r, q') \<Longrightarrow> reach q'"

text \<open>
  The index loop of \<^verbatim>\<open>pop\<close> seen on the list of live entries: the entries left live, and
  the number of entries retired.
\<close>

fun pop_entries :: "size_t \<Rightarrow> size_t list \<Rightarrow> size_t list" where
  "pop_entries remaining [] = []"
| "pop_entries remaining (item_size # es) =
     (if remaining > 0
      then (if remaining \<ge> item_size then pop_entries (remaining - item_size) es
            else (item_size - remaining) # es)
      else item_size # es)"

fun pop_count :: "size_t \<Rightarrow> size_t list \<Rightarrow> nat" where
  "pop_count remaining [] = 0"
| "pop_count remaining (item_size # es) =
     (if remaining > 0 \<and> remaining \<ge> item_size then Suc (pop_count (remaining - item_size) es)
      else 0)"

text \<open>Example queues: the results of \<^verbatim>\<open>create(64)\<close> in the two revisions.\<close>

definition ex_fresh_raw :: ANB_FifoSlab_raw where
  "ex_fresh_raw = \<lparr>data = replicate 64 0, write_pos = 0, read_pos = 0, size_total = 64,
     index = replicate 64 0, index_write = 0, index_read = 0, index_cap = 64\<rparr>"

definition ex_fresh :: ANB_FifoSlab where
  "ex_fresh = \<lparr>data = replicate 64 0, write_pos = 0, read_pos = 0, size_total = 64,
     index = replicate 64 0, index_write = 0, index_read = 0, index_cap = 64,
     pad_index = replicate 64 0\<rparr>"

text \<open>The four cursors, and their pointwise order.\<close>

definition cursors :: "'a ANB_FifoSlab_raw_scheme \<Rightarrow> size_t \<times> size_t \<times> size_t \<times> size_t" where
  "cursors q = (read_pos q, write_pos q, index_read q, index_write q)"

definition cursors_le :: "'a ANB_FifoSlab_raw_scheme \<Rightarrow> 'a ANB_FifoSlab_raw_scheme \<Rightarrow> bool" where
  "cursors_le q q' \<longleftrightarrow>
     read_pos q \<le> read_pos q' \<and> write_pos q \<le> write_pos q' \<and>
     index_read q \<le> index_read q' \<and> index_write q \<le> index_write q'"

text \<open>
  Further example queues, each reached from \<^verbatim>\<open>create(64)\<close> by the pushes and pops shown
  in the section on example runs. \<open>ex_bytes\<close> is the string "alpha" with its terminator.
\<close>

definition ex_bytes :: "uint8_t list" where
  "ex_bytes = [97, 108, 112, 104, 97, 0]"

definition ex1_raw :: ANB_FifoSlab_raw where
  "ex1_raw = \<lparr>data = ex_bytes @ replicate 58 0, write_pos = 16, read_pos = 0, size_total = 64,
     index = 16 # replicate 63 0, index_write = 1, index_read = 0, index_cap = 64\<rparr>"

definition ex2_raw :: ANB_FifoSlab_raw where
  "ex2_raw = \<lparr>data = ex_bytes @ replicate 10 0 @ ex_bytes @ replicate 42 0,
     write_pos = 32, read_pos = 0, size_total = 64,
     index = 16 # 16 # replicate 62 0, index_write = 2, index_read = 0, index_cap = 64\<rparr>"

definition ex3_raw :: ANB_FifoSlab_raw where
  "ex3_raw = \<lparr>data = ex_bytes @ replicate 10 0 @ ex_bytes @ replicate 42 0,
     write_pos = 32, read_pos = 8, size_total = 64,
     index = 8 # 16 # replicate 62 0, index_write = 2, index_read = 0, index_cap = 64\<rparr>"

definition ex1 :: ANB_FifoSlab where
  "ex1 = \<lparr>data = ex_bytes @ replicate 58 0, write_pos = 16, read_pos = 0, size_total = 64,
     index = 16 # replicate 63 0, index_write = 1, index_read = 0, index_cap = 64,
     pad_index = 10 # replicate 63 0\<rparr>"

definition ex2 :: ANB_FifoSlab where
  "ex2 = \<lparr>data = ex_bytes @ replicate 10 0 @ ex_bytes @ replicate 42 0,
     write_pos = 32, read_pos = 0, size_total = 64,
     index = 16 # 16 # replicate 62 0, index_write = 2, index_read = 0, index_cap = 64,
     pad_index = 10 # 10 # replicate 62 0\<rparr>"

definition ex_zero1 :: ANB_FifoSlab where
  "ex_zero1 = \<lparr>data = replicate 64 0, write_pos = 0, read_pos = 0, size_total = 64,
     index = replicate 64 0, index_write = 1, index_read = 0, index_cap = 64,
     pad_index = replicate 64 0\<rparr>"

definition ex_zero2 :: ANB_FifoSlab where
  "ex_zero2 = \<lparr>data = replicate 64 0, write_pos = 0, read_pos = 0, size_total = 64,
     index = replicate 64 0, index_write = 2, index_read = 0, index_cap = 64,
     pad_index = replicate 64 0\<rparr>"

definition ex_zero2_raw :: ANB_FifoSlab_raw where
  "ex_zero2_raw = \<lparr>data = replicate 64 0, write_pos = 0, read_pos = 0, size_total = 64,
     index = replicate 64 0, index_write = 2, index_read = 0, index_cap = 64\<rparr>"

text \<open>
  Traversals, for comparing the iterator with indexed peek: the (view, \<^verbatim>\<open>*out_size\<close>) pairs
  of \<open>k\<close> iterator steps with the iterator after them, and of \<^verbatim>\<open>peek_item(i)\<close> for
  \<open>i = 0, \<dots>, k - 1\<close>.
\<close>

fun iter_collect ::
  "ANB_FifoSlab \<Rightarrow> nat \<Rightarrow> ANB_FifoSlabIter \<Rightarrow> size_t option
     \<Rightarrow> (size_t option \<times> size_t option) list \<times> ANB_FifoSlabIter" where
  "iter_collect queue 0 iter out_size = ([], iter)"
| "iter_collect queue (Suc k) iter out_size =
     (case ANB_fifoslab_peek_item_iter queue iter out_size of
        (view, iter', out', _) \<Rightarrow>
          (case iter_collect queue k iter' out' of
             (rs, iter'') \<Rightarrow> ((view, out') # rs, iter'')))"

fun iter_collect_raw ::
  "ANB_FifoSlab_raw \<Rightarrow> nat \<Rightarrow> ANB_FifoSlabIter \<Rightarrow> size_t option
     \<Rightarrow> (size_t option \<times> size_t option) list \<times> ANB_FifoSlabIter" where
  "iter_collect_raw queue 0 iter out_size = ([], iter)"
| "iter_collect_raw queue (Suc k) iter out_size =
     (case ANB_fifoslab_peek_item_iter_raw queue iter out_size of
        (view, iter', out', _) \<Rightarrow>
          (case iter_collect_raw queue k iter' out' of
             (rs, iter'') \<Rightarrow> ((view, out') # rs, iter'')))"

definition peek_collect ::
  "ANB_FifoSlab \<Rightarrow> nat \<Rightarrow> size_t option \<Rightarrow> (size_t option \<times> size_t option) list" where
  "peek_collect queue k out_size =
     map (\<lambda>i. case ANB_fifoslab_peek_item queue (of_nat i) out_size of
                 Inr (view, out', _) \<Rightarrow> (view, out')
               | Inl _ \<Rightarrow> (None, None)) [0..<k]"

definition peek_collect_raw ::
  "ANB_FifoSlab_raw \<Rightarrow> nat \<Rightarrow> size_t option \<Rightarrow> (size_t option \<times> size_t option) list" where
  "peek_collect_raw queue k out_size =
     map (\<lambda>i. case ANB_fifoslab_peek_item_raw queue (of_nat i) out_size of
                 (view, out', _) \<Rightarrow> (view, out')) [0..<k]"

text \<open>
  The offset of live item \<open>j\<close> (\<open>read_pos\<close> plus the entries before it, in \<^verbatim>\<open>size_t\<close>
  arithmetic) and the length the padded revision computes for it.
\<close>

definition view_at :: "'a ANB_FifoSlab_raw_scheme \<Rightarrow> nat \<Rightarrow> size_t" where
  "view_at q j = read_pos q
     + sum_list (map (\<lambda>i. index q ! i) [unat (index_read q)..<unat (index_read q) + j])"

definition len_at :: "ANB_FifoSlab \<Rightarrow> nat \<Rightarrow> size_t" where
  "len_at q j = index q ! (unat (index_read q) + j) - ucast (pad_index q ! (unat (index_read q) + j))"

text \<open>
  \<open>pushed q items q'\<close>: pushing the items (data and length) in order with \<^verbatim>\<open>push_item\<close>,
  each request fitting, leads from \<open>q\<close> to \<open>q'\<close>.
\<close>

inductive pushed :: "ANB_FifoSlab \<Rightarrow> (uint8_t list \<times> size_t) list \<Rightarrow> ANB_FifoSlab \<Rightarrow> bool" where
  pushed_Nil: "pushed q [] q"
| pushed_Cons:
    "push_fits q d l \<Longrightarrow> ANB_fifoslab_push_item q d l = Some (Inr q1) \<Longrightarrow> pushed q1 items q'
     \<Longrightarrow> pushed q ((d, l) # items) q'"

section \<open>Arithmetic of \<^verbatim>\<open>size_t\<close>\<close>

lemma unat_succ_lt: "(i::size_t) < b \<Longrightarrow> unat (i + 1) = Suc (unat i)"
  by (metis (no_types, lifting) add.commute add_0 inc_i inc_le
        unat_plus_simple unsigned_0 unsigned_1 word_gt_0 Suc_eq_plus1)

lemma unat_double_nat: "unat (s::size_t) < 2 ^ 63 \<Longrightarrow> unat (s * 2) = 2 * unat s"
proof -
  assume "unat s < 2 ^ 63"
  then have "unat s * unat (2::size_t) < 2 ^ LENGTH(64)" by simp
  then have "unat (s * 2) = unat s * unat (2::size_t)"
    by (simp only: unat_mult_lem [THEN iffD1])
  then show ?thesis by simp
qed

lemma unat_double: "(s::size_t) < SIZE_MAX div 2 \<Longrightarrow> unat (s * 2) = 2 * unat s"
  by (rule unat_double_nat) (simp add: SIZE_MAX_def word_less_nat_alt)

lemma unat_add_nowrap: "unat (a::size_t) + unat b < 2 ^ 64 \<Longrightarrow> unat (a + b) = unat a + unat b"
  by (simp add: unat_add_lem [THEN iffD1])

subsection \<open>The alignment macro\<close>

lemma and_not_15: "(y::size_t) AND NOT 15 = y - (y AND 15)"
proof -
  have "y - (y AND 15) = y AND NOT (y AND 15)"
    by (rule disjunctive_diff) (simp add: bit_and_iff)
  also have "\<dots> = y AND NOT 15"
    by (rule bit_eqI) (auto simp: bit_simps)
  finally show ?thesis by simp
qed

lemma align_up_eq: "ANB_FS_ALIGN_UP x = (x + 15) - ((x + 15) AND 15)"
proof -
  have "x + 16 - 1 = x + 15" by simp
  moreover have "(16::size_t) - 1 = 15" by simp
  ultimately show ?thesis
    unfolding ANB_FS_ALIGN_UP_def max_align_def by (simp only: and_not_15)
qed

lemma align_up_pad: "ANB_FS_ALIGN_UP x - x = 15 - ((x + 15) AND 15)"
  by (simp add: align_up_eq)

lemma align_up_pad_le: "ANB_FS_ALIGN_UP x - x \<le> 15"
proof -
  have "(x + 15) AND 15 \<le> (15::size_t)" by (rule word_and_le1)
  then show ?thesis
    unfolding align_up_pad by (simp add: word_sub_le_iff)
qed

lemma ucast_pad: "(p::size_t) \<le> 15 \<Longrightarrow> (ucast (ucast p :: uint8_t) :: size_t) = p"
proof -
  assume a: "p \<le> 15"
  then have u: "unat p \<le> 15" by (simp add: word_le_nat_alt)
  have "unat (ucast (ucast p :: uint8_t) :: size_t) = unat p"
    using u by (simp add: unsigned_ucast_eq take_bit_eq_mod unat_mod)
  then show ?thesis
    by (simp add: word_unat_eq_iff)
qed

text \<open>The padding byte recovers the pushed length, whatever the length.\<close>

lemma align_up_minus_pad:
  "ANB_FS_ALIGN_UP x - ucast (ucast (ANB_FS_ALIGN_UP x - x) :: uint8_t) = x"
  by (simp add: ucast_pad [OF align_up_pad_le])

lemma align_up_unat:
  assumes "unat x + 15 < 2 ^ 64"
  shows "unat x \<le> unat (ANB_FS_ALIGN_UP x)" and "unat (ANB_FS_ALIGN_UP x) \<le> unat x + 15"
proof -
  have y: "unat (x + 15) = unat x + 15"
    using assms by (simp add: unat_word_ariths)
  have z: "unat ((x + 15) AND 15) \<le> 15"
    using word_and_le1 [of "x + 15" 15] by (simp add: word_le_nat_alt)
  have z2: "(x + 15) AND 15 \<le> x + 15"
    by (rule word_and_le2)
  have "unat (ANB_FS_ALIGN_UP x) = unat (x + 15) - unat ((x + 15) AND 15)"
    unfolding align_up_eq using z2 by (simp add: unat_sub)
  then show "unat x \<le> unat (ANB_FS_ALIGN_UP x)" and "unat (ANB_FS_ALIGN_UP x) \<le> unat x + 15"
    using y z by simp_all
qed

lemma align_up_0: "ANB_FS_ALIGN_UP 0 = 0"
  by (simp add: ANB_FS_ALIGN_UP_def max_align_def)

section \<open>Lists as arrays\<close>

lemma take_drop_update_snoc:
  "a \<le> b \<Longrightarrow> b < length xs \<Longrightarrow> take (Suc b - a) (drop a (xs[b := v])) = take (b - a) (drop a xs) @ [v]"
  by (simp add: take_Suc_conv_app_nth Suc_diff_le drop_update_swap)

lemma take_drop_append_ignore:
  "b \<le> length xs \<Longrightarrow> take (b - a) (drop a (xs @ zs)) = take (b - a) (drop a xs)"
  by simp

lemma take_drop_cons:
  "a < b \<Longrightarrow> b \<le> length xs \<Longrightarrow> take (b - a) (drop a xs) = xs ! a # take (b - Suc a) (drop (Suc a) xs)"
  by (metis Cons_nth_drop_Suc Suc_diff_Suc less_le_trans take_Suc_Cons)

lemma take_drop_update_hd:
  "a < b \<Longrightarrow> b \<le> length xs \<Longrightarrow> take (b - a) (drop a (xs[a := v])) = v # take (b - Suc a) (drop (Suc a) xs)"
  by (simp add: take_drop_cons)

lemma length_realloc: "length (realloc xs n) = n"
  by (simp add: realloc_def)

lemma realloc_grow: "length xs \<le> n \<Longrightarrow> realloc xs n = xs @ replicate (n - length xs) 0"
  by (simp add: realloc_def)

lemma length_memcpy: "length (memcpy buf off src n) = length buf"
proof -
  have "length (fold (\<lambda>i b. b[off + i := src ! i]) is buf) = length buf" for "is"
    by (induction "is" arbitrary: buf) simp_all
  then show ?thesis by (simp add: memcpy_def)
qed

lemma length_memset: "length (memset buf off c n) = length buf"
proof -
  have "length (fold (\<lambda>i b. b[off + i := c]) is buf) = length buf" for "is"
    by (induction "is" arbitrary: buf) simp_all
  then show ?thesis by (simp add: memset_def)
qed

text \<open>Appending one entry at \<open>index_write\<close>, after the index array was possibly extended.\<close>

lemma append_slot:
  fixes iw ir :: size_t
  assumes "ir \<le> iw" and "unat iw \<le> length xs" and "unat iw < length (xs @ zs)" and "iw < c"
  shows "take (unat (iw + 1) - unat ir) (drop (unat ir) ((xs @ zs)[unat iw := a]))
       = take (unat iw - unat ir) (drop (unat ir) xs) @ [a]"
proof -
  have s: "unat (iw + 1) = Suc (unat iw)" using assms(4) by (rule unat_succ_lt)
  have le: "unat ir \<le> unat iw" using assms(1) by (simp add: word_le_nat_alt)
  have "take (Suc (unat iw) - unat ir) (drop (unat ir) ((xs @ zs)[unat iw := a]))
      = take (unat iw - unat ir) (drop (unat ir) (xs @ zs)) @ [a]"
    using le assms(3) by (rule take_drop_update_snoc)
  also have "take (unat iw - unat ir) (drop (unat ir) (xs @ zs)) = take (unat iw - unat ir) (drop (unat ir) xs)"
    using assms(2) by (rule take_drop_append_ignore)
  finally show ?thesis using s by simp
qed

text \<open>The index-growth step: a slot for \<open>index_write\<close> exists afterwards.\<close>

lemma index_slot:
  fixes iw cap :: size_t
  assumes "iw \<le> cap" and "0 < cap" and "unat cap < 2 ^ 63" and "length xs = unat cap"
  defines "cap' \<equiv> (if iw \<ge> cap then cap * 2 else cap)"
  defines "xs' \<equiv> (if iw \<ge> cap then realloc xs (unat (cap * 2)) else xs)"
  shows "iw < cap'" and "length xs' = unat cap'" and "\<exists>zs. xs' = xs @ zs" and "0 < cap'"
proof -
  have d: "unat (cap * 2) = 2 * unat cap" using assms(3) by (rule unat_double_nat)
  have p: "0 < unat cap" using assms(2) by (simp add: word_less_nat_alt)
  have l: "unat iw \<le> unat cap" using assms(1) by (simp add: word_le_nat_alt)
  show "iw < cap'"
    using d p l by (auto simp: cap'_def word_less_nat_alt word_le_nat_alt)
  show "length xs' = unat cap'"
    using assms(4) by (simp add: xs'_def cap'_def length_realloc)
  show "\<exists>zs. xs' = xs @ zs"
    using assms(4) d by (auto simp: xs'_def realloc_grow)
  show "0 < cap'"
    using d p assms(2) by (auto simp: cap'_def word_less_nat_alt)
qed

section \<open>Growth of the data buffer\<close>

text \<open>
  From a non-zero capacity the doubling loop returns: either the first doubled capacity
  that reaches \<open>need\<close>, or the failed assertion, at a capacity still below \<open>need\<close> and not
  below \<open>SIZE_MAX / 2\<close>.
\<close>

lemma grow_size_total:
  "0 < s \<Longrightarrow> \<exists>r. grow_size s need = Some r \<and>
     (case r of
        Inr ns \<Rightarrow> s \<le> ns \<and> need \<le> ns \<and>
          (\<exists>k. unat ns = unat s * 2 ^ k \<and> (k = 0 \<or> unat s * 2 ^ (k - 1) < unat need))
      | Inl e \<Rightarrow> e = AssertFail \<and>
          (\<exists>k. unat s * 2 ^ k < unat need \<and> unat (SIZE_MAX div 2) \<le> unat s * 2 ^ k
               \<and> unat s * 2 ^ k < 2 ^ 64))"
proof (induction "2 ^ 64 - unat s" arbitrary: s rule: less_induct)
  case less
  show ?case
  proof (cases "s < need")
    case False
    then have "grow_size s need = Some (Inr s)"
      by (subst grow_size.simps) simp
    moreover have "need \<le> s" using False by simp
    ultimately show ?thesis
      by (intro exI [of _ "Inr s"]) (auto intro: exI [of _ 0])
  next
    case True
    show ?thesis
    proof (cases "s < SIZE_MAX div 2")
      case False
      then have "grow_size s need = Some (Inl AssertFail)"
        using True by (subst grow_size.simps) simp
      moreover have "unat s < unat need" using True by (simp add: word_less_nat_alt)
      moreover have "unat (SIZE_MAX div 2) \<le> unat s"
        using False by (simp add: word_le_nat_alt not_less)
      moreover have "unat s < 2 ^ 64" using unsigned_less [of s] by simp
      ultimately show ?thesis
        by (intro exI [of _ "Inl AssertFail"]) (auto intro: exI [of _ 0])
    next
      case lt: True
      have d: "unat (s * 2) = 2 * unat s" using lt by (rule unat_double)
      have pos: "0 < unat s" using less.prems by (simp add: word_less_nat_alt)
      have b: "unat s < 2 ^ 64" using unsigned_less [of s] by simp
      have pos2: "0 < s * 2"
        using d pos by (simp add: word_less_nat_alt)
      have "unat (s * 2) < 2 ^ 64" using unsigned_less [of "s * 2"] by simp
      then have m: "2 ^ 64 - unat (s * 2) < 2 ^ 64 - unat s"
        using d pos by simp
      from less.hyps [OF m pos2] obtain r where
        r: "grow_size (s * 2) need = Some r" and
        c: "(case r of
            Inr ns \<Rightarrow> s * 2 \<le> ns \<and> need \<le> ns \<and>
              (\<exists>k. unat ns = unat (s * 2) * 2 ^ k \<and> (k = 0 \<or> unat (s * 2) * 2 ^ (k - 1) < unat need))
          | Inl e \<Rightarrow> e = AssertFail \<and>
              (\<exists>k. unat (s * 2) * 2 ^ k < unat need \<and> unat (SIZE_MAX div 2) \<le> unat (s * 2) * 2 ^ k
                   \<and> unat (s * 2) * 2 ^ k < 2 ^ 64))"
        by blast
      have g: "grow_size s need = Some r"
        using True lt r by (subst grow_size.simps) simp
      have sle: "s \<le> s * 2" using d by (simp add: word_le_nat_alt)
      show ?thesis
      proof (cases r)
        case (Inr ns)
        with c obtain k where k: "s * 2 \<le> ns" "need \<le> ns" "unat ns = unat (s * 2) * 2 ^ k"
          "k = 0 \<or> unat (s * 2) * 2 ^ (k - 1) < unat need" by auto
        have "unat ns = unat s * 2 ^ Suc k" using k(3) d by simp
        moreover have "unat s * 2 ^ (Suc k - 1) < unat need"
        proof (cases "k = 0")
          case True
          then show ?thesis using \<open>s < need\<close> by (simp add: word_less_nat_alt)
        next
          case False
          then obtain j where j: "k = Suc j" by (cases k) auto
          with k(4) d show ?thesis by simp
        qed
        ultimately have "\<exists>k. unat ns = unat s * 2 ^ k \<and> (k = 0 \<or> unat s * 2 ^ (k - 1) < unat need)"
          by blast
        moreover have "s \<le> ns" using sle k(1) by simp
        ultimately show ?thesis using g Inr k(2) by simp
      next
        case (Inl e)
        with c obtain k where k: "e = AssertFail" "unat (s * 2) * 2 ^ k < unat need"
          "unat (SIZE_MAX div 2) \<le> unat (s * 2) * 2 ^ k" "unat (s * 2) * 2 ^ k < 2 ^ 64" by auto
        have "unat (s * 2) * 2 ^ k = unat s * 2 ^ Suc k" using d by simp
        with k have "\<exists>k. unat s * 2 ^ k < unat need \<and> unat (SIZE_MAX div 2) \<le> unat s * 2 ^ k
               \<and> unat s * 2 ^ k < 2 ^ 64"
          by metis
        then show ?thesis using g Inl k(1) by simp
      qed
    qed
  qed
qed

text \<open>From capacity 0 the loop never returns.\<close>

lemma grow_size_from_zero: "0 < need \<Longrightarrow> grow_size 0 need = None"
proof (rule ccontr)
  assume n: "0 < need" and "grow_size 0 need \<noteq> None"
  then obtain y where y: "grow_size 0 need = Some y" by auto
  have "\<not> ((0 :: size_t) = 0 \<and> 0 < need)"
  proof (rule grow_size.raw_induct [where P = "\<lambda>a b r. \<not> (a = 0 \<and> 0 < b)", OF _ y])
    fix g :: "size_t \<Rightarrow> size_t \<Rightarrow> (error + size_t) option" and a b :: size_t and r
    assume ih: "\<And>a b r. g a b = Some r \<Longrightarrow> \<not> (a = 0 \<and> 0 < b)"
      and b: "(if a < b then if \<not> a < SIZE_MAX div 2 then Some (Inl AssertFail) else g (a * 2) b
               else Some (Inr a)) = Some r"
    show "\<not> (a = 0 \<and> 0 < b)"
    proof
      assume z: "a = 0 \<and> 0 < b"
      then have "g (a * 2) b = Some r"
        using b by (simp add: SIZE_MAX_def split: if_splits)
      from ih [OF this] z show False by simp
    qed
  qed
  with n show False by simp
qed

lemma copy_in_fields:
  "write_pos (copy_in q d l a) = write_pos q + a"
  "read_pos (copy_in q d l a) = read_pos q"
  "size_total (copy_in q d l a) = size_total q"
  "index (copy_in q d l a) = index q"
  "index_write (copy_in q d l a) = index_write q"
  "index_read (copy_in q d l a) = index_read q"
  "index_cap (copy_in q d l a) = index_cap q"
  "length (data (copy_in q d l a)) = length (data q)"
  "ANB_FifoSlab_raw.more (copy_in q d l a) = ANB_FifoSlab_raw.more q"
  by (simp_all add: copy_in_def Let_def length_memcpy length_memset)

lemma copy_in_pad: "pad_index (copy_in q d l a) = pad_index q"
  by (simp add: copy_in_def Let_def)

section \<open>Push\<close>

lemma expand_data_total:
  "0 < size_total q \<Longrightarrow> \<exists>r. expand_data q a = Some r"
proof -
  assume "0 < size_total q"
  from grow_size_total [OF this, of "write_pos q + a"]
  obtain r where "grow_size (size_total q) (write_pos q + a) = Some r" by blast
  then show ?thesis
    by (cases r) (simp_all add: expand_data_def)
qed

lemma expand_data_ok:
  assumes "0 < size_total q" and "expand_data q a = Some (Inr q1)"
  shows "write_pos q1 = write_pos q" "read_pos q1 = read_pos q" "index q1 = index q"
    "index_write q1 = index_write q" "index_read q1 = index_read q" "index_cap q1 = index_cap q"
    "\<exists>dat sz. q1 = q\<lparr>data := dat, size_total := sz\<rparr>"
    "write_pos q + a \<le> size_total q1" "size_total q \<le> size_total q1"
    "length (data q) = unat (size_total q) \<Longrightarrow> length (data q1) = unat (size_total q1)"
proof -
  from grow_size_total [OF assms(1), of "write_pos q + a"]
  obtain r where r: "grow_size (size_total q) (write_pos q + a) = Some r"
    and full: "(case r of
        Inr ns \<Rightarrow> size_total q \<le> ns \<and> write_pos q + a \<le> ns \<and>
          (\<exists>k. unat ns = unat (size_total q) * 2 ^ k \<and>
             (k = 0 \<or> unat (size_total q) * 2 ^ (k - 1) < unat (write_pos q + a)))
      | Inl e \<Rightarrow> e = AssertFail \<and>
          (\<exists>k. unat (size_total q) * 2 ^ k < unat (write_pos q + a) \<and>
             unat (SIZE_MAX div 2) \<le> unat (size_total q) * 2 ^ k
               \<and> unat (size_total q) * 2 ^ k < 2 ^ 64))"
    by blast
  have c: "(case r of Inr ns \<Rightarrow> size_total q \<le> ns \<and> write_pos q + a \<le> ns | Inl e \<Rightarrow> True)"
    using full by (cases r) simp_all
  have d: "q1 = q \<and> write_pos q + a \<le> size_total q
      \<or> (\<exists>ns. q1 = q\<lparr>data := realloc (data q) (unat ns), size_total := ns\<rparr>
              \<and> size_total q \<le> ns \<and> write_pos q + a \<le> ns)"
    using assms(2) r c by (cases r) (auto simp: expand_data_def not_less split: if_splits)
  then have ex: "\<exists>dat sz. q1 = q\<lparr>data := dat, size_total := sz\<rparr>"
  proof
    assume "q1 = q \<and> write_pos q + a \<le> size_total q"
    then have "q1 = q\<lparr>data := data q, size_total := size_total q\<rparr>" by simp
    then show ?thesis by blast
  next
    assume "\<exists>ns. q1 = q\<lparr>data := realloc (data q) (unat ns), size_total := ns\<rparr>
              \<and> size_total q \<le> ns \<and> write_pos q + a \<le> ns"
    then show ?thesis by blast
  qed
  show "write_pos q1 = write_pos q" "read_pos q1 = read_pos q" "index q1 = index q"
    "index_write q1 = index_write q" "index_read q1 = index_read q" "index_cap q1 = index_cap q"
    "\<exists>dat sz. q1 = q\<lparr>data := dat, size_total := sz\<rparr>"
    "write_pos q + a \<le> size_total q1" "size_total q \<le> size_total q1"
    "length (data q) = unat (size_total q) \<Longrightarrow> length (data q1) = unat (size_total q1)"
    using d ex by (auto simp: length_realloc)
qed

lemma live_entries_cong:
  "index q' = index q \<Longrightarrow> index_read q' = index_read q \<Longrightarrow> index_write q' = index_write q
   \<Longrightarrow> live_entries q' = live_entries q"
  by (simp add: live_entries_def)

text \<open>What one push does to the base fields, for either revision.\<close>

lemma push_step:
  fixes q :: "'a ANB_FifoSlab_raw_scheme" and q3 q' :: "'b ANB_FifoSlab_raw_scheme"
  assumes inv: "slab_inv q" and fits: "unat (write_pos q) + unat a < 2 ^ 64" "unat (index_cap q) < 2 ^ 63"
    and sz: "write_pos q + a \<le> size_total q3" "size_total q \<le> size_total q3"
      "length (data q3) = unat (size_total q3)"
    and f3: "write_pos q3 = write_pos q + a" "read_pos q3 = read_pos q"
      "index_write q3 = index_write q" "index_read q3 = index_read q"
      "index_cap q3 = (if index_write q \<ge> index_cap q then index_cap q * 2 else index_cap q)"
      "index q3 = (if index_write q \<ge> index_cap q then realloc (index q) (unat (index_cap q * 2)) else index q)"
    and q': "q' = q3\<lparr>index := (index q3)[unat (index_write q3) := a],
                     index_write := index_write q3 + 1\<rparr>"
  shows "slab_inv q'" and "live_entries q' = live_entries q @ [a]"
proof -
  have co: "cursors_ok q" and ls: "lockstep q" using inv by (simp_all add: slab_inv_def)
  note c = co [unfolded cursors_ok_def]
  have slot: "index_write q < index_cap q3" "length (index q3) = unat (index_cap q3)"
    "\<exists>zs. index q3 = index q @ zs" "0 < index_cap q3"
    using index_slot [of "index_write q" "index_cap q" "index q"] c fits(2) f3(5,6) by simp_all
  then obtain zs where zs: "index q3 = index q @ zs" by blast
  have iwl: "unat (index_write q) \<le> length (index q)"
    using c by (simp add: word_le_nat_alt)
  have iwl3: "unat (index_write q) < length (index q @ zs)"
    using slot(1,2) zs by (simp add: word_less_nat_alt)
  have s: "unat (index_write q + 1) = Suc (unat (index_write q))"
    using slot(1) by (rule unat_succ_lt)
  show le: "live_entries q' = live_entries q @ [a]"
    using append_slot [of "index_read q" "index_write q" "index q" zs "index_cap q3" a] c iwl iwl3 slot(1)
    by (simp add: live_entries_def q' f3(3,4) zs)
  have wp: "unat (write_pos q + a) = unat (write_pos q) + unat a"
    using fits(1) by (rule unat_add_nowrap)
  have rpwp: "unat (read_pos q) \<le> unat (write_pos q)" using c by (simp add: word_le_nat_alt)
  have "cursors_ok q'"
    unfolding cursors_ok_def
    using c sz slot s wp rpwp
    by (simp add: q' f3(1-5) word_le_nat_alt word_less_nat_alt)
  moreover have "lockstep q'"
  proof -
    have "unat (write_pos q + a - read_pos q) = unat (write_pos q + a) - unat (read_pos q)"
      using wp rpwp by (simp add: unat_sub word_le_nat_alt)
    moreover have "unat (write_pos q - read_pos q) = unat (write_pos q) - unat (read_pos q)"
      using rpwp by (simp add: unat_sub word_le_nat_alt)
    moreover have "write_pos q' = write_pos q + a" "read_pos q' = read_pos q"
      by (simp_all add: q' f3(1,2))
    moreover have "sum_list (map unat (live_entries q')) = sum_list (map unat (live_entries q)) + unat a"
      by (simp add: le)
    ultimately show ?thesis
      using ls wp rpwp by (simp add: lockstep_def)
  qed
  ultimately show "slab_inv q'" by (simp add: slab_inv_def)
qed

lemma push_fits_align:
  assumes "push_fits q d l"
  shows "unat (write_pos q) + unat (ANB_FS_ALIGN_UP l) < 2 ^ 64" and "unat (index_cap q) < 2 ^ 63"
    and "unat l \<le> unat (ANB_FS_ALIGN_UP l)"
proof -
  have b: "unat l + 15 < 2 ^ 64" using assms by (simp add: push_fits_def)
  from align_up_unat [OF b] assms
  show "unat (write_pos q) + unat (ANB_FS_ALIGN_UP l) < 2 ^ 64" and "unat (index_cap q) < 2 ^ 63"
    and "unat l \<le> unat (ANB_FS_ALIGN_UP l)"
    by (simp_all add: push_fits_def)
qed

lemma push_raw_total:
  "0 < size_total q \<Longrightarrow> \<exists>r. ANB_fifoslab_push q d l = Some r"
proof -
  assume "0 < size_total q"
  from expand_data_total [OF this, of "ANB_FS_ALIGN_UP l"]
  obtain r where "expand_data q (ANB_FS_ALIGN_UP l) = Some r" by blast
  then show ?thesis
    by (cases r) (simp_all add: ANB_fifoslab_push_def Let_def)
qed

lemma push_item_total:
  "0 < size_total q \<Longrightarrow> \<exists>r. ANB_fifoslab_push_item q d l = Some r"
proof -
  assume "0 < size_total q"
  from expand_data_total [OF this, of "ANB_FS_ALIGN_UP l"]
  obtain r where "expand_data q (ANB_FS_ALIGN_UP l) = Some r" by blast
  then show ?thesis
    by (cases r) (simp_all add: ANB_fifoslab_push_item_def Let_def)
qed

lemma push_raw_ok:
  assumes inv: "slab_inv q" and fits: "push_fits q d l"
    and p: "ANB_fifoslab_push q d l = Some (Inr q')"
  shows "slab_inv q'" and "live_entries q' = live_entries q @ [ANB_FS_ALIGN_UP l]"
    and "read_pos q' = read_pos q" and "write_pos q' = write_pos q + ANB_FS_ALIGN_UP l"
    and "index_read q' = index_read q" and "index_write q' = index_write q + 1"
    and "size_total q \<le> size_total q'"
proof -
  define a where "a = ANB_FS_ALIGN_UP l"
  have pos: "0 < size_total q" using inv by (simp add: slab_inv_def cursors_ok_def)
  have len: "length (data q) = unat (size_total q)" using inv by (simp add: slab_inv_def cursors_ok_def)
  from p obtain q1 where e: "expand_data q a = Some (Inr q1)"
    by (auto simp: ANB_fifoslab_push_def Let_def a_def split: option.splits sum.splits)
  note e1 = expand_data_ok [OF pos e]
  define q3 where "q3 = (let q2 = copy_in q1 d l a in
       if index_write q2 \<ge> index_cap q2
       then q2\<lparr>index := realloc (index q2) (unat (index_cap q2 * 2)), index_cap := index_cap q2 * 2\<rparr>
       else q2)"
  have q': "q' = q3\<lparr>index := (index q3)[unat (index_write q3) := a], index_write := index_write q3 + 1\<rparr>"
    using p e
    by (cases "index_write (copy_in q1 d l a) \<ge> index_cap (copy_in q1 d l a)")
       (auto simp: ANB_fifoslab_push_def Let_def a_def [symmetric] q3_def)
  have f3: "write_pos q3 = write_pos q + a" "read_pos q3 = read_pos q"
      "index_write q3 = index_write q" "index_read q3 = index_read q"
      "index_cap q3 = (if index_write q \<ge> index_cap q then index_cap q * 2 else index_cap q)"
      "index q3 = (if index_write q \<ge> index_cap q then realloc (index q) (unat (index_cap q * 2)) else index q)"
      "size_total q3 = size_total q1" "length (data q3) = length (data q1)"
    by (simp_all add: q3_def Let_def copy_in_fields e1)
  note fa = push_fits_align [OF fits, folded a_def]
  have sz: "write_pos q + a \<le> size_total q3" "size_total q \<le> size_total q3"
      "length (data q3) = unat (size_total q3)"
    using e1(8,9) e1(10) [OF len] by (simp_all add: f3)
  from push_step [OF inv fa(1,2) sz f3(1-6) q']
  show "slab_inv q'" and "live_entries q' = live_entries q @ [ANB_FS_ALIGN_UP l]"
    by (simp_all add: a_def)
  show "read_pos q' = read_pos q" and "write_pos q' = write_pos q + ANB_FS_ALIGN_UP l"
    and "index_read q' = index_read q" and "index_write q' = index_write q + 1"
    and "size_total q \<le> size_total q'"
    using sz(2) by (simp_all add: q' f3 a_def)
qed

lemma unat_ucast_pad: "(p::size_t) \<le> 15 \<Longrightarrow> unat (ucast p :: uint8_t) = unat p"
  by (simp add: word_le_nat_alt unsigned_ucast_eq take_bit_eq_mod)

lemma push_item_ok:
  assumes inv: "slab_inv_pad q" and fits: "push_fits q d l"
    and p: "ANB_fifoslab_push_item q d l = Some (Inr q')"
  shows "slab_inv_pad q'" and "live_entries q' = live_entries q @ [ANB_FS_ALIGN_UP l]"
    and "live_lens q' = live_lens q @ [l]"
    and "read_pos q' = read_pos q" and "write_pos q' = write_pos q + ANB_FS_ALIGN_UP l"
    and "index_read q' = index_read q" and "index_write q' = index_write q + 1"
    and "size_total q \<le> size_total q'"
proof -
  define a where "a = ANB_FS_ALIGN_UP l"
  have sinv: "slab_inv q" and pk: "pads_ok q" using inv by (simp_all add: slab_inv_pad_def)
  have co: "cursors_ok q" using sinv by (simp add: slab_inv_def)
  note c = co [unfolded cursors_ok_def]
  have pos: "0 < size_total q" and len: "length (data q) = unat (size_total q)" using c by simp_all
  from p obtain q1 where e: "expand_data q a = Some (Inr q1)"
    by (auto simp: ANB_fifoslab_push_item_def Let_def a_def split: option.splits sum.splits)
  note e1 = expand_data_ok [OF pos e]
  define q4 where "q4 = (let q2 = copy_in q1 d l a;
       q3 = (if index_write q2 \<ge> index_cap q2
             then q2\<lparr>index := realloc (index q2) (unat (index_cap q2 * 2)),
                     pad_index := realloc (pad_index q2) (unat (index_cap q2 * 2)),
                     index_cap := index_cap q2 * 2\<rparr>
             else q2)
       in q3\<lparr>pad_index := (pad_index q3)[unat (index_write q3) := (ucast (a - l) :: uint8_t)]\<rparr>)"
  have q': "q' = q4\<lparr>index := (index q4)[unat (index_write q4) := a], index_write := index_write q4 + 1\<rparr>"
    using p e
    by (cases "index_write (copy_in q1 d l a) \<ge> index_cap (copy_in q1 d l a)")
       (auto simp: ANB_fifoslab_push_item_def Let_def a_def [symmetric] q4_def)
  have f3: "write_pos q4 = write_pos q + a" "read_pos q4 = read_pos q"
      "index_write q4 = index_write q" "index_read q4 = index_read q"
      "index_cap q4 = (if index_write q \<ge> index_cap q then index_cap q * 2 else index_cap q)"
      "index q4 = (if index_write q \<ge> index_cap q then realloc (index q) (unat (index_cap q * 2)) else index q)"
      "size_total q4 = size_total q1" "length (data q4) = length (data q1)"
    by (simp_all add: q4_def Let_def copy_in_fields e1)
  have pq1: "pad_index q1 = pad_index q"
    using e1(7) by auto
  have p4: "pad_index q4 = (if index_write q \<ge> index_cap q
        then realloc (pad_index q) (unat (index_cap q * 2)) else pad_index q)
          [unat (index_write q) := ucast (a - l)]"
    by (simp add: q4_def Let_def copy_in_fields copy_in_pad e1 pq1)
  note fa = push_fits_align [OF fits, folded a_def]
  have sz: "write_pos q + a \<le> size_total q4" "size_total q \<le> size_total q4"
      "length (data q4) = unat (size_total q4)"
    using e1(8,9) e1(10) [OF len] by (simp_all add: f3)
  note st = push_step [OF sinv fa(1,2) sz f3(1-6) q']
  show es: "live_entries q' = live_entries q @ [ANB_FS_ALIGN_UP l]"
    using st(2) by (simp add: a_def)
  show "read_pos q' = read_pos q" and "write_pos q' = write_pos q + ANB_FS_ALIGN_UP l"
    and "index_read q' = index_read q" and "index_write q' = index_write q + 1"
    and "size_total q \<le> size_total q'"
    using sz(2) by (simp_all add: q' f3 a_def)
  have pl: "length (pad_index q) = unat (index_cap q)"
    using pk c by (simp add: pads_ok_def)
  have slot: "index_write q < index_cap q4" "length (index q4) = unat (index_cap q4)"
    using index_slot [of "index_write q" "index_cap q" "index q"] c fa(2) f3(5,6) by simp_all
  have pslot: "\<exists>zs. (if index_write q \<ge> index_cap q
        then realloc (pad_index q) (unat (index_cap q * 2)) else pad_index q) = pad_index q @ zs"
     "length (if index_write q \<ge> index_cap q
        then realloc (pad_index q) (unat (index_cap q * 2)) else pad_index q) = unat (index_cap q4)"
    using index_slot [of "index_write q" "index_cap q" "pad_index q"] c fa(2) pl f3(5) by simp_all
  then obtain zs where zs: "(if index_write q \<ge> index_cap q
        then realloc (pad_index q) (unat (index_cap q * 2)) else pad_index q) = pad_index q @ zs"
    by blast
  have iwl: "unat (index_write q) \<le> length (pad_index q)"
    using c pl by (simp add: word_le_nat_alt)
  have iwl3: "unat (index_write q) < length (pad_index q @ zs)"
    using slot(1) pslot(2) zs by (simp add: word_less_nat_alt)
  have ps: "live_pads q' = live_pads q @ [ucast (a - l)]"
    using append_slot [of "index_read q" "index_write q" "pad_index q" zs "index_cap q4" "ucast (a - l)"]
      c iwl iwl3 slot(1)
    by (simp add: live_pads_def q' f3(3,4) p4 zs)
  have leq: "length (live_pads q) = length (live_entries q)"
    using pk by (auto simp: pads_ok_def dest: list_all2_lengthD)
  have padle: "a - l \<le> 15" unfolding a_def by (rule align_up_pad_le)
  have "unat (a - l) \<le> unat a"
    using fa(3) by (simp add: unat_sub word_le_nat_alt)
  then have pa: "unat (ucast (a - l) :: uint8_t) \<le> unat a"
    using unat_ucast_pad [OF padle] by simp
  have "length (pad_index q') = length (index q')"
    using slot(2) pslot(2) by (simp add: q' p4)
  moreover have "list_all2 (\<lambda>p a. unat p \<le> unat a) (live_pads q') (live_entries q')"
    using pk pa leq by (simp add: ps st(2) pads_ok_def list_all2_appendI)
  ultimately have "pads_ok q'" by (simp add: pads_ok_def)
  then show "slab_inv_pad q'" using st(1) by (simp add: slab_inv_pad_def)
  show "live_lens q' = live_lens q @ [l]"
    using leq align_up_minus_pad [of l] by (simp add: live_lens_def ps st(2) a_def)
qed

section \<open>Pop\<close>

lemma live_entries_front:
  assumes "index_read q < index_write q" and "unat (index_write q) \<le> length (index q)"
  shows "live_entries q = index q ! unat (index_read q) # live_entries (q\<lparr>index_read := index_read q + 1\<rparr>)"
proof -
  have s: "unat (index_read q + 1) = Suc (unat (index_read q))"
    using assms(1) by (rule unat_succ_lt)
  have "unat (index_read q) < unat (index_write q)"
    using assms(1) by (simp add: word_less_nat_alt)
  from take_drop_cons [OF this assms(2)] show ?thesis
    by (simp add: live_entries_def s)
qed

lemma live_pads_front:
  assumes "index_read q < index_write q" and "unat (index_write q) \<le> length (pad_index q)"
  shows "live_pads q = pad_index q ! unat (index_read q) # live_pads (q\<lparr>index_read := index_read q + 1\<rparr>)"
proof -
  have s: "unat (index_read q + 1) = Suc (unat (index_read q))"
    using assms(1) by (rule unat_succ_lt)
  have "unat (index_read q) < unat (index_write q)"
    using assms(1) by (simp add: word_less_nat_alt)
  from take_drop_cons [OF this assms(2)] show ?thesis
    by (simp add: live_pads_def s)
qed

lemma drain_reset_inv:
  assumes "slab_inv q"
  shows "slab_inv (drain_reset q)"
proof (cases "read_pos q = write_pos q")
  case False
  then show ?thesis using assms by (simp add: drain_reset_def)
next
  case True
  have "cursors_ok q" using assms by (simp add: slab_inv_def)
  then have "cursors_ok (drain_reset q)"
    using True by (simp add: drain_reset_def cursors_ok_def)
  moreover have "lockstep (drain_reset q)"
    using True by (simp add: drain_reset_def lockstep_def live_entries_def)
  ultimately show ?thesis by (simp add: slab_inv_def)
qed

lemma drain_reset_pads:
  assumes "pads_ok q"
  shows "pads_ok (drain_reset q)"
  using assms by (simp add: drain_reset_def pads_ok_def live_pads_def live_entries_def)

text \<open>Retiring the front entry: the step shared by both \<^verbatim>\<open>pop_item\<close>s, before the reset.\<close>

lemma pop_front:
  fixes q :: "'a ANB_FifoSlab_raw_scheme"
  assumes inv: "slab_inv q" and ne: "index_read q < index_write q"
  defines "a \<equiv> index q ! unat (index_read q)"
  defines "q2 \<equiv> q\<lparr>index_read := index_read q + 1, read_pos := read_pos q + a\<rparr>"
  shows "slab_inv q2" and "live_entries q = a # live_entries q2"
    and "unat (read_pos q + a) = unat (read_pos q) + unat a"
    and "unat (read_pos q) + unat a \<le> unat (write_pos q)"
    and "unat (index_read q + 1) = Suc (unat (index_read q))"
proof -
  have co: "cursors_ok q" and ls: "lockstep q" using inv by (simp_all add: slab_inv_def)
  note c = co [unfolded cursors_ok_def]
  have iwl: "unat (index_write q) \<le> length (index q)"
    using c by (simp add: word_le_nat_alt)
  show s: "unat (index_read q + 1) = Suc (unat (index_read q))"
    using ne by (rule unat_succ_lt)
  have fr: "live_entries q = a # live_entries (q\<lparr>index_read := index_read q + 1\<rparr>)"
    unfolding a_def using ne iwl by (rule live_entries_front)
  then show le: "live_entries q = a # live_entries q2"
    by (simp add: q2_def live_entries_def)
  have rpwp: "unat (read_pos q) \<le> unat (write_pos q)" using c by (simp add: word_le_nat_alt)
  have d: "unat (write_pos q - read_pos q) = unat (write_pos q) - unat (read_pos q)"
    using rpwp by (simp add: unat_sub word_le_nat_alt)
  have sum: "unat a + sum_list (map unat (live_entries q2)) = unat (write_pos q) - unat (read_pos q)"
    using ls d by (simp add: lockstep_def le)
  then show b: "unat (read_pos q) + unat a \<le> unat (write_pos q)"
    using rpwp by simp
  have "unat (write_pos q) < 2 ^ 64" using unsigned_less [of "write_pos q"] by simp
  then have "unat (read_pos q) + unat a < 2 ^ 64" using b by simp
  then show w: "unat (read_pos q + a) = unat (read_pos q) + unat a"
    by (rule unat_add_nowrap)
  have "cursors_ok q2"
    unfolding cursors_ok_def using c ne s w b
    by (simp add: q2_def word_le_nat_alt word_less_nat_alt)
  moreover have "lockstep q2"
  proof -
    have "unat (write_pos q - (read_pos q + a)) = unat (write_pos q) - unat (read_pos q + a)"
      using w b by (simp add: unat_sub word_le_nat_alt)
    moreover have "write_pos q2 = write_pos q" "read_pos q2 = read_pos q + a"
      by (simp_all add: q2_def)
    ultimately show ?thesis using sum w by (simp add: lockstep_def)
  qed
  ultimately show "slab_inv q2" by (simp add: slab_inv_def)
qed

lemma pop_entries_0: "pop_entries 0 es = es"
  by (cases es) simp_all

lemma pop_count_0: "pop_count 0 es = 0"
  by (cases es) simp_all

lemma pop_loop_stop:
  "\<not> (remaining > 0 \<and> index_read q < index_write q) \<Longrightarrow> pop_loop q remaining = q"
  by (subst pop_loop.simps) auto

lemma live_entries_empty: "\<not> index_read q < index_write q \<Longrightarrow> live_entries q = []"
  by (simp add: live_entries_def word_less_nat_alt)

lemma pop_loop_live:
  assumes "index_read q \<le> index_write q" and "unat (index_write q) \<le> length (index q)"
  shows "live_entries (pop_loop q r) = pop_entries r (live_entries q)
       \<and> index_read (pop_loop q r) = index_read q + of_nat (pop_count r (live_entries q))
       \<and> index_write (pop_loop q r) = index_write q
       \<and> read_pos (pop_loop q r) = read_pos q
       \<and> write_pos (pop_loop q r) = write_pos q
       \<and> size_total (pop_loop q r) = size_total q
       \<and> data (pop_loop q r) = data q
       \<and> index_cap (pop_loop q r) = index_cap q
       \<and> length (index (pop_loop q r)) = length (index q)"
  using assms
proof (induction q r rule: pop_loop.induct)
  case (1 queue remaining)
  show ?case
  proof (cases "remaining > 0 \<and> index_read queue < index_write queue")
    case False
    then have st: "pop_loop queue remaining = queue" by (rule pop_loop_stop)
    from False have "remaining = 0 \<or> live_entries queue = []"
      using live_entries_empty [of queue] by (auto simp: word_gt_0)
    then show ?thesis
      using st by (auto simp: pop_entries_0 pop_count_0)
  next
    case True
    define item_size where "item_size = index queue ! unat (index_read queue)"
    have lt: "index_read queue < index_write queue" using True by simp
    have fr: "live_entries queue = item_size # live_entries (queue\<lparr>index_read := index_read queue + 1\<rparr>)"
      unfolding item_size_def using lt "1.prems"(2) by (rule live_entries_front)
    have s: "unat (index_read queue + 1) = Suc (unat (index_read queue))"
      using lt by (rule unat_succ_lt)
    show ?thesis
    proof (cases "remaining \<ge> item_size")
      case ge: True
      let ?q = "queue\<lparr>index_read := index_read queue + 1\<rparr>"
      have st: "pop_loop queue remaining = pop_loop ?q (remaining - item_size)"
        using True ge by (subst pop_loop.simps) (simp add: item_size_def Let_def)
      have p1: "index_read ?q \<le> index_write ?q"
        using lt s by (simp add: word_le_nat_alt word_less_nat_alt)
      have p2: "unat (index_write ?q) \<le> length (index ?q)"
        using "1.prems"(2) by simp
      note ih = "1.IH"(1) [OF True item_size_def ge p1 p2]
      show ?thesis
        using ih True ge by (simp add: st fr)
    next
      case lt2: False
      let ?q = "queue\<lparr>index := (index queue)[unat (index_read queue) :=
                   index queue ! unat (index_read queue) - remaining]\<rparr>"
      have st: "pop_loop queue remaining = pop_loop ?q 0"
        using True lt2 by (subst pop_loop.simps) (simp add: item_size_def Let_def)
      have st2: "pop_loop ?q 0 = ?q" by (rule pop_loop_stop) simp
      have "unat (index_read queue) < unat (index_write queue)"
        using lt by (simp add: word_less_nat_alt)
      from take_drop_update_hd [OF this "1.prems"(2)]
      have "live_entries ?q = (item_size - remaining) # live_entries (queue\<lparr>index_read := index_read queue + 1\<rparr>)"
        by (simp add: live_entries_def s item_size_def)
      then show ?thesis
        using True lt2 by (simp add: st st2 fr)
    qed
  qed
qed

lemma pop_entries_sum:
  "unat r \<le> sum_list (map unat es)
   \<Longrightarrow> sum_list (map unat (pop_entries r es)) = sum_list (map unat es) - unat r"
proof (induction es arbitrary: r)
  case Nil
  then show ?case by simp
next
  case (Cons e es)
  show ?case
  proof (cases "r > 0")
    case False
    then have "r = 0" by (simp add: word_gt_0)
    then show ?thesis by simp
  next
    case pos: True
    show ?thesis
    proof (cases "r \<ge> e")
      case True
      then have u: "unat (r - e) = unat r - unat e" and le: "unat e \<le> unat r"
        by (simp_all add: unat_sub word_le_nat_alt)
      have "unat (r - e) \<le> sum_list (map unat es)"
        using Cons.prems u le by simp
      from Cons.IH [OF this] show ?thesis
        using pos True u le by simp
    next
      case False
      then have "r \<le> e" by simp
      then have "unat (e - r) = unat e - unat r" and "unat r \<le> unat e"
        by (simp_all add: unat_sub word_le_nat_alt)
      then show ?thesis using pos False by simp
    qed
  qed
qed

lemma pop_count_le: "pop_count r es \<le> length es"
  by (induction es arbitrary: r) simp_all

text \<open>
  The entries retired are fully covered by \<open>r\<close>; either they use \<open>r\<close> up, or \<open>r\<close> ends
  strictly inside the next entry, which stays live, shortened by the remainder.
\<close>

lemma pop_entries_spec_aux:
  "unat r \<le> sum_list (map unat es) \<Longrightarrow>
     (let k = pop_count r es; c = sum_list (map unat (take k es)) in
        c \<le> unat r \<and> (c = unat r \<longrightarrow> pop_entries r es = drop k es) \<and>
        (c < unat r \<longrightarrow> k < length es \<and> unat r - c < unat (es ! k)
           \<and> pop_entries r es = (es ! k - (r - of_nat c)) # drop (Suc k) es))"
proof (induction es arbitrary: r)
  case Nil
  then show ?case by simp
next
  case (Cons e es)
  show ?case
  proof (cases "r > 0")
    case False
    then have "r = 0" by (simp add: word_gt_0)
    then show ?thesis by simp
  next
    case pos: True
    show ?thesis
    proof (cases "r \<ge> e")
      case True
      then have u: "unat (r - e) = unat r - unat e" and le: "unat e \<le> unat r"
        by (simp_all add: unat_sub word_le_nat_alt)
      have pre: "unat (r - e) \<le> sum_list (map unat es)"
        using Cons.prems u le by simp
      define k where "k = pop_count (r - e) es"
      define c where "c = sum_list (map unat (take k es))"
      from Cons.IH [OF pre]
      have ih: "c \<le> unat (r - e)" "c = unat (r - e) \<longrightarrow> pop_entries (r - e) es = drop k es"
        "c < unat (r - e) \<longrightarrow> k < length es \<and> unat (r - e) - c < unat (es ! k)
           \<and> pop_entries (r - e) es = (es ! k - (r - e - of_nat c)) # drop (Suc k) es"
        by (simp_all add: Let_def k_def c_def)
      have w: "r - (of_nat (unat e + c)) = r - e - of_nat c" by simp
      have kk: "pop_count r (e # es) = Suc k" using pos True by (simp add: k_def)
      have cc: "sum_list (map unat (take (Suc k) (e # es))) = unat e + c" by (simp add: c_def)
      have pe: "pop_entries r (e # es) = pop_entries (r - e) es" using pos True by simp
      show ?thesis
        unfolding Let_def kk cc pe w
        using ih u le by auto
    next
      case False
      then have lt: "unat r < unat e" by (simp add: word_le_nat_alt)
      have p: "0 < unat r" using pos by (simp add: word_less_nat_alt)
      show ?thesis using pos False lt p by simp
    qed
  qed
qed

lemma pop_entries_spec:
  assumes "unat r \<le> sum_list (map unat es)"
  defines "k \<equiv> pop_count r es"
  defines "c \<equiv> sum_list (map unat (take k es))"
  shows "c \<le> unat r" and "c = unat r \<Longrightarrow> pop_entries r es = drop k es"
    and "c < unat r \<Longrightarrow> k < length es \<and> unat r - c < unat (es ! k)
           \<and> pop_entries r es = (es ! k - (r - of_nat c)) # drop (Suc k) es
           \<and> unat (es ! k - (r - of_nat c)) = unat (es ! k) - (unat r - c)"
proof -
  note a = pop_entries_spec_aux [OF assms(1), unfolded Let_def, folded k_def, folded c_def]
  show cl: "c \<le> unat r" using a by simp
  show "c = unat r \<Longrightarrow> pop_entries r es = drop k es" using a by simp
  have b: "unat r < 2 ^ 64" using unsigned_less [of r] by simp
  then have "unat (of_nat c :: size_t) = c"
    using cl by (simp add: unat_of_nat)
  then have rc: "unat (r - of_nat c) = unat r - c"
    using cl by (simp add: unat_sub word_le_nat_alt)
  show "c < unat r \<Longrightarrow> k < length es \<and> unat r - c < unat (es ! k)
           \<and> pop_entries r es = (es ! k - (r - of_nat c)) # drop (Suc k) es
           \<and> unat (es ! k - (r - of_nat c)) = unat (es ! k) - (unat r - c)"
  proof -
    assume lt: "c < unat r"
    with a have f: "k < length es" "unat r - c < unat (es ! k)"
      "pop_entries r es = (es ! k - (r - of_nat c)) # drop (Suc k) es" by simp_all
    have "r - of_nat c \<le> es ! k" using f(2) rc by (simp add: word_le_nat_alt)
    then have "unat (es ! k - (r - of_nat c)) = unat (es ! k) - (unat r - c)"
      using rc by (simp add: unat_sub)
    with f show ?thesis by simp
  qed
qed

lemma create_raw_64: "ANB_fifoslab_create_raw 64 = Inr ex_fresh_raw"
  by (simp add: ANB_fifoslab_create_raw_def ex_fresh_raw_def ANB_FS_INITIAL_INDEX_CAP_def)

lemma create_64: "ANB_fifoslab_create 64 = Inr ex_fresh"
  by (simp add: ANB_fifoslab_create_def ex_fresh_def ANB_FS_INITIAL_INDEX_CAP_def)

section \<open>Pop and the invariant\<close>

lemma unat_add_of_nat: "unat (i::size_t) + k < 2 ^ 64 \<Longrightarrow> unat (i + of_nat k) = unat i + k"
proof -
  assume a: "unat i + k < 2 ^ 64"
  then have "unat (of_nat k :: size_t) = k" by (simp add: unat_of_nat)
  then show ?thesis using a unat_add_nowrap [of i "of_nat k"] by simp
qed

lemma length_live_entries:
  "unat (index_write q) \<le> length (index q)
   \<Longrightarrow> length (live_entries q) = unat (index_write q) - unat (index_read q)"
  by (simp add: live_entries_def)

lemma cursors_okD:
  assumes "cursors_ok q"
  shows "unat (read_pos q) \<le> unat (write_pos q)" and "unat (index_read q) \<le> unat (index_write q)"
    and "unat (index_write q) \<le> length (index q)"
    and "unat (write_pos q - read_pos q) = unat (write_pos q) - unat (read_pos q)"
    and "index_read q \<le> index_write q"
  using assms by (simp_all add: cursors_ok_def word_le_nat_alt unat_sub)

subsection \<open>\<^verbatim>\<open>pop_item\<close>\<close>

lemma pop_item_raw_empty:
  "\<not> index_read q < index_write q \<Longrightarrow> ANB_fifoslab_pop_item_raw q = (0, q)"
  by (simp add: ANB_fifoslab_pop_item_raw_def not_less)

lemma pop_item_empty:
  "\<not> index_read q < index_write q \<Longrightarrow> ANB_fifoslab_pop_item q = (0, q)"
  by (simp add: ANB_fifoslab_pop_item_def not_less)

lemma pop_item_raw_step:
  "index_read q < index_write q \<Longrightarrow>
   ANB_fifoslab_pop_item_raw q =
     (index q ! unat (index_read q),
      drain_reset (q\<lparr>index_read := index_read q + 1,
                      read_pos := read_pos q + index q ! unat (index_read q)\<rparr>))"
  by (auto simp: ANB_fifoslab_pop_item_raw_def Let_def)

lemma pop_item_step:
  "index_read q < index_write q \<Longrightarrow>
   ANB_fifoslab_pop_item q =
     (index q ! unat (index_read q) - ucast (pad_index q ! unat (index_read q)),
      drain_reset (q\<lparr>index_read := index_read q + 1,
                      read_pos := read_pos q + index q ! unat (index_read q)\<rparr>))"
  by (auto simp: ANB_fifoslab_pop_item_def Let_def)

lemma pop_item_raw_inv:
  assumes "slab_inv q"
  shows "slab_inv (snd (ANB_fifoslab_pop_item_raw q))"
proof (cases "index_read q < index_write q")
  case False
  then show ?thesis using assms by (simp add: pop_item_raw_empty)
next
  case True
  from pop_front(1) [OF assms True] show ?thesis
    by (simp add: pop_item_raw_step [OF True] drain_reset_inv)
qed

lemma pads_ok_front:
  assumes "cursors_ok q" and "pads_ok q" and ne: "index_read q < index_write q"
  shows "pads_ok (q\<lparr>index_read := index_read q + 1, read_pos := r\<rparr>)"
    and "live_pads q = pad_index q ! unat (index_read q)
           # live_pads (q\<lparr>index_read := index_read q + 1, read_pos := r\<rparr>)"
    and "live_entries q = index q ! unat (index_read q)
           # live_entries (q\<lparr>index_read := index_read q + 1, read_pos := r\<rparr>)"
proof -
  note c = cursors_okD [OF assms(1)]
  have pl: "length (pad_index q) = length (index q)" using assms(2) by (simp add: pads_ok_def)
  have fe: "live_entries q = index q ! unat (index_read q) # live_entries (q\<lparr>index_read := index_read q + 1\<rparr>)"
    using ne c(3) by (rule live_entries_front)
  have fp: "live_pads q = pad_index q ! unat (index_read q) # live_pads (q\<lparr>index_read := index_read q + 1\<rparr>)"
    using ne c(3) pl by (simp add: live_pads_front)
  show e: "live_entries q = index q ! unat (index_read q)
           # live_entries (q\<lparr>index_read := index_read q + 1, read_pos := r\<rparr>)"
    using fe by (simp add: live_entries_def)
  show p: "live_pads q = pad_index q ! unat (index_read q)
           # live_pads (q\<lparr>index_read := index_read q + 1, read_pos := r\<rparr>)"
    using fp by (simp add: live_pads_def)
  have "list_all2 (\<lambda>p a. unat p \<le> unat a) (live_pads q) (live_entries q)"
    using assms(2) by (simp add: pads_ok_def)
  then have "list_all2 (\<lambda>p a. unat p \<le> unat a)
      (live_pads (q\<lparr>index_read := index_read q + 1, read_pos := r\<rparr>))
      (live_entries (q\<lparr>index_read := index_read q + 1, read_pos := r\<rparr>))"
    unfolding e p by simp
  then show "pads_ok (q\<lparr>index_read := index_read q + 1, read_pos := r\<rparr>)"
    using pl by (simp add: pads_ok_def)
qed

lemma pop_item_inv:
  assumes "slab_inv_pad q"
  shows "slab_inv_pad (snd (ANB_fifoslab_pop_item q))"
proof (cases "index_read q < index_write q")
  case False
  then show ?thesis using assms by (simp add: pop_item_empty)
next
  case True
  have i: "slab_inv q" and p: "pads_ok q" and c: "cursors_ok q"
    using assms by (simp_all add: slab_inv_pad_def slab_inv_def)
  from pop_front(1) [OF i True] pads_ok_front(1) [OF c p True]
  show ?thesis
    by (simp add: pop_item_step [OF True] drain_reset_inv drain_reset_pads slab_inv_pad_def)
qed

subsection \<open>Byte-level \<^verbatim>\<open>pop\<close>\<close>

lemma pop_refused:
  "n = 0 \<or> n > write_pos q - read_pos q \<Longrightarrow> ANB_fifoslab_pop (Some q) n = (0, Some q)"
  by (auto simp: ANB_fifoslab_pop_def ANB_fifoslab_peek_def)

lemma pop_step:
  "n \<noteq> 0 \<Longrightarrow> n \<le> write_pos q - read_pos q \<Longrightarrow>
   ANB_fifoslab_pop (Some q) n
     = (n, Some (drain_reset (pop_loop (q\<lparr>read_pos := read_pos q + n\<rparr>) n)))"
  by (auto simp: ANB_fifoslab_pop_def ANB_fifoslab_peek_def Let_def)

lemma pop_loop_ok:
  assumes inv: "slab_inv q" and le: "n \<le> write_pos q - read_pos q"
  defines "q2 \<equiv> pop_loop (q\<lparr>read_pos := read_pos q + n\<rparr>) n"
  shows "slab_inv q2" and "live_entries q2 = pop_entries n (live_entries q)"
    and "index_read q2 = index_read q + of_nat (pop_count n (live_entries q))"
    and "read_pos q2 = read_pos q + n" and "write_pos q2 = write_pos q"
    and "index_write q2 = index_write q"
    and "unat (read_pos q + n) = unat (read_pos q) + unat n"
    and "unat (index_read q2) = unat (index_read q) + pop_count n (live_entries q)"
    and "unat n \<le> sum_list (map unat (live_entries q))"
proof -
  have co: "cursors_ok q" and ls: "lockstep q" using inv by (simp_all add: slab_inv_def)
  note c = cursors_okD [OF co]
  let ?q1 = "q\<lparr>read_pos := read_pos q + n\<rparr>"
  have l1: "live_entries ?q1 = live_entries q" by (simp add: live_entries_def)
  have pl: "live_entries q2 = pop_entries n (live_entries ?q1)
       \<and> index_read q2 = index_read ?q1 + of_nat (pop_count n (live_entries ?q1))
       \<and> index_write q2 = index_write ?q1
       \<and> read_pos q2 = read_pos ?q1
       \<and> write_pos q2 = write_pos ?q1
       \<and> size_total q2 = size_total ?q1
       \<and> data q2 = data ?q1
       \<and> index_cap q2 = index_cap ?q1
       \<and> length (index q2) = length (index ?q1)"
    unfolding q2_def using c(5) c(3) by (intro pop_loop_live) simp_all
  show f: "live_entries q2 = pop_entries n (live_entries q)"
    "index_read q2 = index_read q + of_nat (pop_count n (live_entries q))"
    "read_pos q2 = read_pos q + n" "write_pos q2 = write_pos q" "index_write q2 = index_write q"
    using pl l1 by simp_all
  have n: "unat n \<le> unat (write_pos q) - unat (read_pos q)"
    using le c(4) by (simp add: word_le_nat_alt)
  show sm: "unat n \<le> sum_list (map unat (live_entries q))"
    using ls n c(4) by (simp add: lockstep_def)
  have wb: "unat (write_pos q) < 2 ^ 64" using unsigned_less [of "write_pos q"] by simp
  show w: "unat (read_pos q + n) = unat (read_pos q) + unat n"
    using n c(1) wb by (intro unat_add_nowrap) simp
  have kl: "pop_count n (live_entries q) \<le> unat (index_write q) - unat (index_read q)"
    using pop_count_le [of n "live_entries q"] length_live_entries [OF c(3)] by simp
  have ib: "unat (index_write q) < 2 ^ 64" using unsigned_less [of "index_write q"] by simp
  show u: "unat (index_read q2) = unat (index_read q) + pop_count n (live_entries q)"
    unfolding f(2) using kl c(2) ib by (intro unat_add_of_nat) simp
  have a1: "unat (read_pos q) + unat n \<le> unat (write_pos q)" using n c(1) by arith
  have a2: "unat (index_read q) + pop_count n (live_entries q) \<le> unat (index_write q)"
    using kl c(2) by arith
  have "cursors_ok q2"
    unfolding cursors_ok_def
    using co [unfolded cursors_ok_def] pl u w a1 a2
    by (simp add: word_le_nat_alt l1)
  moreover have "lockstep q2"
  proof -
    have "unat (write_pos q - (read_pos q + n)) = unat (write_pos q) - (unat (read_pos q) + unat n)"
      using w n c(1) by (simp add: unat_sub word_le_nat_alt)
    then show ?thesis
      using pop_entries_sum [OF sm] ls c(4) by (simp add: lockstep_def f)
  qed
  ultimately show "slab_inv q2" by (simp add: slab_inv_def)
qed

lemma pop_inv:
  assumes "slab_inv q" and "ANB_fifoslab_pop (Some q) n = (r, Some q')"
  shows "slab_inv q'"
proof (cases "n = 0 \<or> n > write_pos q - read_pos q")
  case True
  then show ?thesis using assms by (simp add: pop_refused)
next
  case False
  then have a: "n \<noteq> 0" "n \<le> write_pos q - read_pos q" by (simp_all add: not_less)
  from pop_loop_ok(1) [OF assms(1) a(2)] assms(2) show ?thesis
    by (auto simp: pop_step [OF a] drain_reset_inv)
qed

subsection \<open>Reachable states satisfy the invariant\<close>

lemma create_raw_inv: "ANB_fifoslab_create_raw n = Inr q \<Longrightarrow> slab_inv q"
  by (auto simp: ANB_fifoslab_create_raw_def slab_inv_def cursors_ok_def lockstep_def
      live_entries_def ANB_FS_INITIAL_INDEX_CAP_def split: if_splits)

lemma create_inv: "ANB_fifoslab_create n = Inr q \<Longrightarrow> slab_inv_pad q"
  by (auto simp: ANB_fifoslab_create_def slab_inv_pad_def slab_inv_def cursors_ok_def lockstep_def
      pads_ok_def live_entries_def live_pads_def ANB_FS_INITIAL_INDEX_CAP_def split: if_splits)

lemma reach_raw_inv: "reach_raw q \<Longrightarrow> slab_inv q"
proof (induction rule: reach_raw.induct)
  case (reach_raw_create n q)
  then show ?case by (rule create_raw_inv)
next
  case (reach_raw_push q d l q')
  then show ?case using push_raw_ok(1) by blast
next
  case (reach_raw_pop q n r q')
  then show ?case using pop_inv by blast
next
  case (reach_raw_pop_item q r q')
  then show ?case using pop_item_raw_inv [of q] by simp
qed

lemma reach_inv: "reach q \<Longrightarrow> slab_inv_pad q"
proof (induction rule: reach.induct)
  case (reach_create n q)
  then show ?case by (rule create_inv)
next
  case (reach_push_item q d l q')
  then show ?case using push_item_ok(1) by blast
next
  case (reach_pop_item q r q')
  then show ?case using pop_item_inv [of q] by simp
qed

section \<open>Example runs\<close>

lemma ex_push1_raw: "ANB_fifoslab_push ex_fresh_raw ex_bytes 6 = Some (Inr ex1_raw)"
  by code_simp

lemma ex_push2_raw: "ANB_fifoslab_push ex1_raw ex_bytes 6 = Some (Inr ex2_raw)"
  by code_simp

lemma ex_pop_raw: "ANB_fifoslab_pop (Some ex2_raw) 8 = (8, Some ex3_raw)"
  by code_simp

lemma ex_push1: "ANB_fifoslab_push_item ex_fresh ex_bytes 6 = Some (Inr ex1)"
  by code_simp

lemma ex_push2: "ANB_fifoslab_push_item ex1 ex_bytes 6 = Some (Inr ex2)"
  by code_simp

lemma ex_push_zero1: "ANB_fifoslab_push_item ex_fresh [] 0 = Some (Inr ex_zero1)"
  by code_simp

lemma ex_push_zero2: "ANB_fifoslab_push_item ex_zero1 [] 0 = Some (Inr ex_zero2)"
  by code_simp

lemma ex_push_zero2_raw:
  "ANB_fifoslab_push ex_fresh_raw [] 0 = Some (Inr (ex_zero2_raw\<lparr>index_write := 1\<rparr>))"
  "ANB_fifoslab_push (ex_zero2_raw\<lparr>index_write := 1\<rparr>) [] 0 = Some (Inr ex_zero2_raw)"
  by code_simp+

lemma align_up_6: "ANB_FS_ALIGN_UP 6 = 16"
  by (simp add: ANB_FS_ALIGN_UP_def max_align_def)

lemma ex_fits:
  "push_fits ex_fresh_raw ex_bytes 6" "push_fits ex1_raw ex_bytes 6"
  "push_fits ex_fresh ex_bytes 6" "push_fits ex1 ex_bytes 6"
  "push_fits ex_fresh [] 0" "push_fits ex_zero1 [] 0"
  "push_fits ex_fresh_raw [] 0" "push_fits (ex_zero2_raw\<lparr>index_write := 1\<rparr>) [] 0"
  by (simp_all add: push_fits_def align_up_6 align_up_0 ex_fresh_raw_def ex1_raw_def ex_fresh_def
      ex1_def ex_zero1_def ex_zero2_raw_def ex_bytes_def)

lemma ex_reach_raw: "reach_raw ex_fresh_raw" "reach_raw ex1_raw" "reach_raw ex2_raw" "reach_raw ex3_raw"
proof -
  show a: "reach_raw ex_fresh_raw" using create_raw_64 by (rule reach_raw_create)
  show b: "reach_raw ex1_raw" using a ex_fits(1) ex_push1_raw by (rule reach_raw_push)
  show c: "reach_raw ex2_raw" using b ex_fits(2) ex_push2_raw by (rule reach_raw_push)
  show "reach_raw ex3_raw" using c ex_pop_raw by (rule reach_raw_pop)
qed

lemma ex_reach: "reach ex_fresh" "reach ex1" "reach ex2" "reach ex_zero1" "reach ex_zero2"
proof -
  show a: "reach ex_fresh" using create_64 by (rule reach_create)
  show b: "reach ex1" using a ex_fits(3) ex_push1 by (rule reach_push_item)
  show "reach ex2" using b ex_fits(4) ex_push2 by (rule reach_push_item)
  show c: "reach ex_zero1" using a ex_fits(5) ex_push_zero1 by (rule reach_push_item)
  show "reach ex_zero2" using c ex_fits(6) ex_push_zero2 by (rule reach_push_item)
qed

lemma ex_reach_zero2_raw: "reach_raw ex_zero2_raw"
proof -
  have a: "reach_raw ex_fresh_raw" using create_raw_64 by (rule reach_raw_create)
  have b: "reach_raw (ex_zero2_raw\<lparr>index_write := 1\<rparr>)"
    using a ex_fits(7) ex_push_zero2_raw(1) by (rule reach_raw_push)
  show ?thesis using b ex_fits(8) ex_push_zero2_raw(2) by (rule reach_raw_push)
qed

section \<open>Byte-level peek\<close>

text \<open>
  Claim C10, as amended. \<^verbatim>\<open>peek(n)\<close> returns the pointer at \<open>read_pos\<close> exactly when
  \<open>0 < n \<le> write_pos - read_pos\<close>; otherwise it returns \<^verbatim>\<open>NULL\<close>, and so it does for
  \<open>n = 0\<close>, whatever is live, and for a \<^verbatim>\<open>NULL\<close> queue. The queue is returned as it was.
\<close>

theorem peek_iff:
  "ANB_fifoslab_peek (Some q) n =
     (if n = 0 \<or> n > write_pos q - read_pos q then None else Some (read_pos q), Some q)
   \<and> ANB_fifoslab_peek None n = (None, None)"
  by (simp add: ANB_fifoslab_peek_def)

text \<open>
  Claim C10 as stated fails at \<open>n = 0\<close>: on the fresh queue no fewer than 0 bytes are live,
  yet \<^verbatim>\<open>peek(0)\<close> is \<^verbatim>\<open>NULL\<close>.
\<close>

theorem peek_zero_counterexample:
  "\<not> unat (write_pos ex_fresh_raw - read_pos ex_fresh_raw) < unat (0 :: size_t)
   \<and> fst (ANB_fifoslab_peek (Some ex_fresh_raw) 0) = None"
  by (simp add: ANB_fifoslab_peek_def)

section \<open>Indexed peek out of range\<close>

text \<open>
  Claim C6. In \<^verbatim>\<open>part_000\<close> the out-of-range branch of \<^verbatim>\<open>peek_item\<close> executes
  \<^verbatim>\<open>*out_size = 0\<close> before returning \<^verbatim>\<open>NULL\<close>, without the test \<^verbatim>\<open>if (out_size)\<close> of the
  in-range branch. On the fresh queue, \<^verbatim>\<open>peek_item(q, item_count(q), NULL)\<close> therefore
  dereferences \<^verbatim>\<open>NULL\<close> instead of returning "not found"; with a cell to write to it
  returns \<^verbatim>\<open>NULL\<close> and stores 0.
\<close>

theorem peek_item_null_out_size:
  "fst (ANB_fifoslab_item_count ex_fresh) = 0
   \<and> ANB_fifoslab_peek_item ex_fresh 0 None = Inl NullDeref
   \<and> ANB_fifoslab_peek_item ex_fresh 0 (Some 7) = Inr (None, Some 0, ex_fresh)"
  by (simp add: ANB_fifoslab_peek_item_def ANB_fifoslab_item_count_def ex_fresh_def)

text \<open>
  With a cell to write to, and in \<^verbatim>\<open>part_001\<close> for any \<^verbatim>\<open>out_size\<close>, "not found" is
  returned exactly for \<open>n \<ge> index_write - index_read\<close>, and the queue is returned as it was.
\<close>

lemma peek_item_not_found_iff:
  "ANB_fifoslab_peek_item q n (Some v) = Inr (None, Some 0, q)
     \<longleftrightarrow> n \<ge> index_write q - index_read q"
  "fst (ANB_fifoslab_peek_item_raw p n out) = None \<longleftrightarrow> n \<ge> index_write p - index_read p"
  "n \<ge> index_write p - index_read p \<Longrightarrow> ANB_fifoslab_peek_item_raw p n out = (None, out, p)"
  by (simp_all add: ANB_fifoslab_peek_item_def ANB_fifoslab_peek_item_raw_def Let_def)

section \<open>Termination of the growth loop\<close>

lemma expand_data_spec:
  assumes "0 < size_total q"
  shows "\<exists>r. expand_data q a = Some r \<and>
     (case r of
        Inr q1 \<Rightarrow> size_total q \<le> size_total q1 \<and> write_pos q + a \<le> size_total q1 \<and>
          (\<exists>k. unat (size_total q1) = unat (size_total q) * 2 ^ k \<and>
             (k = 0 \<or> unat (size_total q) * 2 ^ (k - 1) < unat (write_pos q + a)))
      | Inl e \<Rightarrow> e = AssertFail \<and>
          (\<exists>k. unat (size_total q) * 2 ^ k < unat (write_pos q + a) \<and>
             unat (SIZE_MAX div 2) \<le> unat (size_total q) * 2 ^ k \<and>
             unat (size_total q) * 2 ^ k < 2 ^ 64))"
proof (cases "write_pos q + a > size_total q")
  case False
  then have "expand_data q a = Some (Inr q)" by (simp add: expand_data_def)
  moreover have "\<exists>k. unat (size_total q) = unat (size_total q) * 2 ^ k \<and>
             (k = 0 \<or> unat (size_total q) * 2 ^ (k - 1) < unat (write_pos q + a))"
    by (rule exI [of _ 0]) simp
  ultimately show ?thesis using False by simp
next
  case True
  from grow_size_total [OF assms, of "write_pos q + a"]
  obtain r where r: "grow_size (size_total q) (write_pos q + a) = Some r"
    and full: "(case r of
        Inr ns \<Rightarrow> size_total q \<le> ns \<and> write_pos q + a \<le> ns \<and>
          (\<exists>k. unat ns = unat (size_total q) * 2 ^ k \<and>
             (k = 0 \<or> unat (size_total q) * 2 ^ (k - 1) < unat (write_pos q + a)))
      | Inl e \<Rightarrow> e = AssertFail \<and>
          (\<exists>k. unat (size_total q) * 2 ^ k < unat (write_pos q + a) \<and>
             unat (SIZE_MAX div 2) \<le> unat (size_total q) * 2 ^ k
               \<and> unat (size_total q) * 2 ^ k < 2 ^ 64))"
    by blast
  show ?thesis
  proof (cases r)
    case (Inl e)
    then have "expand_data q a = Some (Inl e)" using True r by (simp add: expand_data_def)
    then show ?thesis using full Inl by simp
  next
    case (Inr ns)
    then have "expand_data q a = Some (Inr (q\<lparr>data := realloc (data q) (unat ns), size_total := ns\<rparr>))"
      using True r by (simp add: expand_data_def)
    then show ?thesis using full Inr by simp
  qed
qed

lemma push_item_after_expand:
  "expand_data q (ANB_FS_ALIGN_UP l) = Some (Inr q1)
   \<Longrightarrow> \<exists>q'. ANB_fifoslab_push_item q d l = Some (Inr q') \<and> size_total q' = size_total q1"
  "expand_data q (ANB_FS_ALIGN_UP l) = Some (Inl e) \<Longrightarrow> ANB_fifoslab_push_item q d l = Some (Inl e)"
  by (simp_all add: ANB_fifoslab_push_item_def Let_def copy_in_fields)

lemma push_raw_after_expand:
  "expand_data q (ANB_FS_ALIGN_UP l) = Some (Inr q1)
   \<Longrightarrow> \<exists>q'. ANB_fifoslab_push q d l = Some (Inr q') \<and> size_total q' = size_total q1"
  "expand_data q (ANB_FS_ALIGN_UP l) = Some (Inl e) \<Longrightarrow> ANB_fifoslab_push q d l = Some (Inl e)"
  by (simp_all add: ANB_fifoslab_push_def Let_def copy_in_fields)


text \<open>
  Claim C9. On a queue of non-zero capacity (the capacity \<^verbatim>\<open>create\<close> asserts, and growth
  never lowers it) every push returns. It either succeeds, with a capacity that is the old
  one doubled \<open>k\<close> times, at least the old one, at least \<open>write_pos + ALIGN_UP(n)\<close>, and
  with the least such \<open>k\<close>; or it stops at the failed assertion, at a doubled capacity
  still too small and not below \<open>SIZE_MAX / 2\<close>. Stated for \<^verbatim>\<open>push_item\<close> and \<^verbatim>\<open>push\<close>.
\<close>

theorem push_growth_terminates:
  assumes "0 < size_total q" and "0 < size_total p"
  shows "(\<exists>r. ANB_fifoslab_push_item q d l = Some r \<and>
     (case r of
        Inr q' \<Rightarrow> size_total q \<le> size_total q' \<and>
          write_pos q + ANB_FS_ALIGN_UP l \<le> size_total q' \<and>
          (\<exists>k. unat (size_total q') = unat (size_total q) * 2 ^ k \<and>
             (k = 0 \<or> unat (size_total q) * 2 ^ (k - 1) < unat (write_pos q + ANB_FS_ALIGN_UP l)))
      | Inl e \<Rightarrow> e = AssertFail \<and>
          (\<exists>k. unat (size_total q) * 2 ^ k < unat (write_pos q + ANB_FS_ALIGN_UP l) \<and>
             unat (SIZE_MAX div 2) \<le> unat (size_total q) * 2 ^ k)))
   \<and> (\<exists>r. ANB_fifoslab_push p d l = Some r \<and>
     (case r of
        Inr p' \<Rightarrow> size_total p \<le> size_total p' \<and>
          write_pos p + ANB_FS_ALIGN_UP l \<le> size_total p' \<and>
          (\<exists>k. unat (size_total p') = unat (size_total p) * 2 ^ k \<and>
             (k = 0 \<or> unat (size_total p) * 2 ^ (k - 1) < unat (write_pos p + ANB_FS_ALIGN_UP l)))
      | Inl e \<Rightarrow> e = AssertFail \<and>
          (\<exists>k. unat (size_total p) * 2 ^ k < unat (write_pos p + ANB_FS_ALIGN_UP l) \<and>
             unat (SIZE_MAX div 2) \<le> unat (size_total p) * 2 ^ k)))"
proof
  from expand_data_spec [OF assms(1), of "ANB_FS_ALIGN_UP l"]
  obtain r where r: "expand_data q (ANB_FS_ALIGN_UP l) = Some r"
    and c: "(case r of
        Inr q1 \<Rightarrow> size_total q \<le> size_total q1 \<and> write_pos q + ANB_FS_ALIGN_UP l \<le> size_total q1 \<and>
          (\<exists>k. unat (size_total q1) = unat (size_total q) * 2 ^ k \<and>
             (k = 0 \<or> unat (size_total q) * 2 ^ (k - 1) < unat (write_pos q + ANB_FS_ALIGN_UP l)))
      | Inl e \<Rightarrow> e = AssertFail \<and>
          (\<exists>k. unat (size_total q) * 2 ^ k < unat (write_pos q + ANB_FS_ALIGN_UP l) \<and>
             unat (SIZE_MAX div 2) \<le> unat (size_total q) * 2 ^ k \<and>
             unat (size_total q) * 2 ^ k < 2 ^ 64))"
    by blast
  show "\<exists>r. ANB_fifoslab_push_item q d l = Some r \<and>
     (case r of
        Inr q' \<Rightarrow> size_total q \<le> size_total q' \<and>
          write_pos q + ANB_FS_ALIGN_UP l \<le> size_total q' \<and>
          (\<exists>k. unat (size_total q') = unat (size_total q) * 2 ^ k \<and>
             (k = 0 \<or> unat (size_total q) * 2 ^ (k - 1) < unat (write_pos q + ANB_FS_ALIGN_UP l)))
      | Inl e \<Rightarrow> e = AssertFail \<and>
          (\<exists>k. unat (size_total q) * 2 ^ k < unat (write_pos q + ANB_FS_ALIGN_UP l) \<and>
             unat (SIZE_MAX div 2) \<le> unat (size_total q) * 2 ^ k))"
  proof (cases r)
    case (Inl e)
    with r c push_item_after_expand(2) [of q l e d] show ?thesis by auto
  next
    case (Inr q1)
    with r push_item_after_expand(1) [of q l q1 d]
    obtain q' where "ANB_fifoslab_push_item q d l = Some (Inr q')" "size_total q' = size_total q1"
      by auto
    with c Inr show ?thesis by simp
  qed
next
  from expand_data_spec [OF assms(2), of "ANB_FS_ALIGN_UP l"]
  obtain r where r: "expand_data p (ANB_FS_ALIGN_UP l) = Some r"
    and c: "(case r of
        Inr q1 \<Rightarrow> size_total p \<le> size_total q1 \<and> write_pos p + ANB_FS_ALIGN_UP l \<le> size_total q1 \<and>
          (\<exists>k. unat (size_total q1) = unat (size_total p) * 2 ^ k \<and>
             (k = 0 \<or> unat (size_total p) * 2 ^ (k - 1) < unat (write_pos p + ANB_FS_ALIGN_UP l)))
      | Inl e \<Rightarrow> e = AssertFail \<and>
          (\<exists>k. unat (size_total p) * 2 ^ k < unat (write_pos p + ANB_FS_ALIGN_UP l) \<and>
             unat (SIZE_MAX div 2) \<le> unat (size_total p) * 2 ^ k \<and>
             unat (size_total p) * 2 ^ k < 2 ^ 64))"
    by blast
  show "\<exists>r. ANB_fifoslab_push p d l = Some r \<and>
     (case r of
        Inr p' \<Rightarrow> size_total p \<le> size_total p' \<and>
          write_pos p + ANB_FS_ALIGN_UP l \<le> size_total p' \<and>
          (\<exists>k. unat (size_total p') = unat (size_total p) * 2 ^ k \<and>
             (k = 0 \<or> unat (size_total p) * 2 ^ (k - 1) < unat (write_pos p + ANB_FS_ALIGN_UP l)))
      | Inl e \<Rightarrow> e = AssertFail \<and>
          (\<exists>k. unat (size_total p) * 2 ^ k < unat (write_pos p + ANB_FS_ALIGN_UP l) \<and>
             unat (SIZE_MAX div 2) \<le> unat (size_total p) * 2 ^ k))"
  proof (cases r)
    case (Inl e)
    with r c push_raw_after_expand(2) [of p l e d] show ?thesis by auto
  next
    case (Inr q1)
    with r push_raw_after_expand(1) [of p l q1 d]
    obtain p' where "ANB_fifoslab_push p d l = Some (Inr p')" "size_total p' = size_total q1"
      by auto
    with c Inr show ?thesis by simp
  qed
qed

theorem push_growth_terminates_witness:
  "0 < size_total ex_fresh \<and> 0 < size_total ex_fresh_raw
   \<and> (\<exists>r. ANB_fifoslab_push_item ex_fresh (replicate 1000 7) 1000 = Some r \<and>
     (case r of
        Inr q' \<Rightarrow> size_total ex_fresh \<le> size_total q' \<and>
          write_pos ex_fresh + ANB_FS_ALIGN_UP 1000 \<le> size_total q' \<and>
          (\<exists>k. unat (size_total q') = unat (size_total ex_fresh) * 2 ^ k \<and>
             (k = 0 \<or> unat (size_total ex_fresh) * 2 ^ (k - 1)
                       < unat (write_pos ex_fresh + ANB_FS_ALIGN_UP 1000)))
      | Inl e \<Rightarrow> e = AssertFail \<and>
          (\<exists>k. unat (size_total ex_fresh) * 2 ^ k < unat (write_pos ex_fresh + ANB_FS_ALIGN_UP 1000) \<and>
             unat (SIZE_MAX div 2) \<le> unat (size_total ex_fresh) * 2 ^ k)))
   \<and> (\<exists>r. ANB_fifoslab_push ex_fresh_raw (replicate 1000 7) 1000 = Some r \<and>
     (case r of
        Inr p' \<Rightarrow> size_total ex_fresh_raw \<le> size_total p' \<and>
          write_pos ex_fresh_raw + ANB_FS_ALIGN_UP 1000 \<le> size_total p' \<and>
          (\<exists>k. unat (size_total p') = unat (size_total ex_fresh_raw) * 2 ^ k \<and>
             (k = 0 \<or> unat (size_total ex_fresh_raw) * 2 ^ (k - 1)
                       < unat (write_pos ex_fresh_raw + ANB_FS_ALIGN_UP 1000)))
      | Inl e \<Rightarrow> e = AssertFail \<and>
          (\<exists>k. unat (size_total ex_fresh_raw) * 2 ^ k
                  < unat (write_pos ex_fresh_raw + ANB_FS_ALIGN_UP 1000) \<and>
             unat (SIZE_MAX div 2) \<le> unat (size_total ex_fresh_raw) * 2 ^ k)))"
proof -
  have h1: "0 < size_total ex_fresh" by (simp add: ex_fresh_def)
  have h2: "0 < size_total ex_fresh_raw" by (simp add: ex_fresh_raw_def)
  show ?thesis
    using h1 h2 push_growth_terminates [OF h1 h2, of "replicate 1000 7" 1000] by blast
qed

lemma grow_size_example: "grow_size 64 1008 = Some (Inr 1024)"
  by (simp add: grow_size.simps SIZE_MAX_def)

section \<open>Zero-length items\<close>

lemma expand_data_zero:
  "write_pos q \<le> size_total q \<Longrightarrow> expand_data q 0 = Some (Inr q)"
  by (auto simp: expand_data_def)

text \<open>
  Claim C8. In a queue that satisfies the invariant (and whose index capacity can still be
  doubled), \<^verbatim>\<open>push_item\<close> of a zero-length item returns without error, for any data
  pointer; \<^verbatim>\<open>item_count()\<close> grows by one; the item's footprint in the data store is
  \<open>ALIGN_UP(0)\<close>, which is 0, so \<open>write_pos\<close> and \<^verbatim>\<open>size()\<close> move by that much; the entry
  recorded is \<open>ALIGN_UP(0)\<close> and the length reported for it is 0.
\<close>

theorem push_zero_length:
  assumes "slab_inv_pad q" and "unat (index_cap q) < 2 ^ 63"
  shows "\<exists>q'. ANB_fifoslab_push_item q d 0 = Some (Inr q')
     \<and> fst (ANB_fifoslab_item_count q') = fst (ANB_fifoslab_item_count q) + 1
     \<and> write_pos q' = write_pos q + ANB_FS_ALIGN_UP 0
     \<and> fst (ANB_fifoslab_size q') = fst (ANB_fifoslab_size q) + ANB_FS_ALIGN_UP 0
     \<and> live_entries q' = live_entries q @ [ANB_FS_ALIGN_UP 0]
     \<and> live_lens q' = live_lens q @ [0]
     \<and> ANB_FS_ALIGN_UP 0 = 0"
proof -
  have c: "cursors_ok q" using assms(1) by (simp add: slab_inv_pad_def slab_inv_def)
  then have "write_pos q \<le> size_total q" by (simp add: cursors_ok_def)
  then have "expand_data q (ANB_FS_ALIGN_UP 0) = Some (Inr q)"
    by (simp add: align_up_0 expand_data_zero)
  from push_item_after_expand(1) [OF this, of d]
  obtain q' where p: "ANB_fifoslab_push_item q d 0 = Some (Inr q')" by blast
  have f: "push_fits q d 0"
    using assms(2) unsigned_less [of "write_pos q"] by (simp add: push_fits_def align_up_0)
  note ok = push_item_ok [OF assms(1) f p]
  have "fst (ANB_fifoslab_item_count q') = fst (ANB_fifoslab_item_count q) + 1"
    by (simp add: ANB_fifoslab_item_count_def ok)
  moreover have "fst (ANB_fifoslab_size q') = fst (ANB_fifoslab_size q) + ANB_FS_ALIGN_UP 0"
    by (simp add: ANB_fifoslab_size_def ok)
  ultimately show ?thesis
    using p ok(2,3,5) align_up_0 by blast
qed

theorem push_zero_length_witness:
  "slab_inv_pad ex1 \<and> unat (index_cap ex1) < 2 ^ 63
   \<and> (\<exists>q'. ANB_fifoslab_push_item ex1 [] 0 = Some (Inr q')
     \<and> fst (ANB_fifoslab_item_count q') = fst (ANB_fifoslab_item_count ex1) + 1
     \<and> write_pos q' = write_pos ex1 + ANB_FS_ALIGN_UP 0
     \<and> fst (ANB_fifoslab_size q') = fst (ANB_fifoslab_size ex1) + ANB_FS_ALIGN_UP 0
     \<and> live_entries q' = live_entries ex1 @ [ANB_FS_ALIGN_UP 0]
     \<and> live_lens q' = live_lens ex1 @ [0]
     \<and> ANB_FS_ALIGN_UP 0 = 0)"
proof -
  have h1: "slab_inv_pad ex1" using ex_reach(2) by (rule reach_inv)
  have h2: "unat (index_cap ex1) < 2 ^ 63" by (simp add: ex1_def)
  show ?thesis using h1 h2 push_zero_length [OF h1 h2, of "[]"] by blast
qed

text \<open>With every live entry 0 the live bytes are 0 and the pads are 0.\<close>

lemma all_zero_live:
  assumes inv: "slab_inv q" and z: "\<forall>a \<in> set (live_entries q). a = 0"
  shows "read_pos q = write_pos q"
proof -
  have c: "cursors_ok q" and l: "lockstep q" using inv by (simp_all add: slab_inv_def)
  have "sum_list (map unat (live_entries q)) = 0" using z by auto
  moreover have "sum_list (map unat (live_entries q)) = unat (write_pos q - read_pos q)"
    using l by (simp only: lockstep_def)
  ultimately have "unat (write_pos q - read_pos q) = 0" by (simp only:)
  then have "write_pos q - read_pos q = 0" by (simp add: unat_eq_zero)
  then show ?thesis by simp
qed

lemma item_count_ge2:
  assumes "cursors_ok q" and "2 \<le> unat (index_write q - index_read q)"
  shows "index_read q < index_write q"
proof -
  note c = cursors_okD [OF assms(1)]
  have "unat (index_write q - index_read q) = unat (index_write q) - unat (index_read q)"
    using c(2) by (simp add: unat_sub word_le_nat_alt)
  then show ?thesis using assms(2) by (simp add: word_less_nat_alt)
qed

text \<open>
  Claim C7. In a queue that satisfies the invariant, holds at least two live items and
  only zero-length ones, one \<^verbatim>\<open>pop_item()\<close> returns 0, which is also what it returns on
  an empty queue, and resets all four cursors, because \<open>read_pos = write_pos\<close> holds
  already; \<^verbatim>\<open>item_count()\<close> is 0 afterwards, so the other items are gone. Both revisions.
\<close>

theorem zero_length_items_discarded:
  assumes "slab_inv_pad q" and "\<forall>a \<in> set (live_entries q). a = 0"
    and "2 \<le> unat (fst (ANB_fifoslab_item_count q))"
    and "slab_inv p" and "\<forall>a \<in> set (live_entries p). a = 0"
    and "2 \<le> unat (fst (ANB_fifoslab_item_count_raw p))"
  shows "fst (ANB_fifoslab_pop_item q) = 0
     \<and> cursors (snd (ANB_fifoslab_pop_item q)) = (0, 0, 0, 0)
     \<and> fst (ANB_fifoslab_item_count (snd (ANB_fifoslab_pop_item q))) = 0
     \<and> fst (ANB_fifoslab_pop_item_raw p) = 0
     \<and> cursors (snd (ANB_fifoslab_pop_item_raw p)) = (0, 0, 0, 0)
     \<and> fst (ANB_fifoslab_item_count_raw (snd (ANB_fifoslab_pop_item_raw p))) = 0"
proof -
  have i: "slab_inv q" and pk: "pads_ok q" and c: "cursors_ok q"
    using assms(1) by (simp_all add: slab_inv_pad_def slab_inv_def)
  have ne: "index_read q < index_write q"
    using item_count_ge2 [OF c] assms(3) by (simp add: ANB_fifoslab_item_count_def)
  have rw: "read_pos q = write_pos q" using i assms(2) by (rule all_zero_live)
  note fr = pads_ok_front(2,3) [OF c pk ne, of "read_pos q"]
  have a0: "index q ! unat (index_read q) = 0"
    using assms(2) fr(2) by simp
  have "list_all2 (\<lambda>p a. unat p \<le> unat a) (live_pads q) (live_entries q)"
    using pk by (simp add: pads_ok_def)
  then have "unat (pad_index q ! unat (index_read q)) \<le> unat (index q ! unat (index_read q))"
    unfolding fr by simp
  then have p0: "pad_index q ! unat (index_read q) = 0"
    using a0 by (simp add: unat_eq_zero)
  have 1: "fst (ANB_fifoslab_pop_item q) = 0
     \<and> cursors (snd (ANB_fifoslab_pop_item q)) = (0, 0, 0, 0)
     \<and> fst (ANB_fifoslab_item_count (snd (ANB_fifoslab_pop_item q))) = 0"
    by (simp add: pop_item_step [OF ne] a0 p0 rw drain_reset_def cursors_def
        ANB_fifoslab_item_count_def)
  have c': "cursors_ok p" using assms(4) by (simp add: slab_inv_def)
  have ne': "index_read p < index_write p"
    using item_count_ge2 [OF c'] assms(6) by (simp add: ANB_fifoslab_item_count_raw_def)
  have rw': "read_pos p = write_pos p" using assms(4,5) by (rule all_zero_live)
  have "live_entries p = index p ! unat (index_read p) # live_entries (p\<lparr>index_read := index_read p + 1\<rparr>)"
    using ne' cursors_okD(3) [OF c'] by (rule live_entries_front)
  then have a0': "index p ! unat (index_read p) = 0"
    using assms(5) by simp
  have 2: "fst (ANB_fifoslab_pop_item_raw p) = 0
     \<and> cursors (snd (ANB_fifoslab_pop_item_raw p)) = (0, 0, 0, 0)
     \<and> fst (ANB_fifoslab_item_count_raw (snd (ANB_fifoslab_pop_item_raw p))) = 0"
    by (simp add: pop_item_raw_step [OF ne'] a0' rw' drain_reset_def cursors_def
        ANB_fifoslab_item_count_raw_def)
  from 1 2 show ?thesis by simp
qed

theorem zero_length_items_discarded_witness:
  "slab_inv_pad ex_zero2 \<and> live_entries ex_zero2 = [0, 0]
   \<and> 2 \<le> unat (fst (ANB_fifoslab_item_count ex_zero2))
   \<and> slab_inv ex_zero2_raw \<and> live_entries ex_zero2_raw = [0, 0]
   \<and> 2 \<le> unat (fst (ANB_fifoslab_item_count_raw ex_zero2_raw))
   \<and> fst (ANB_fifoslab_pop_item ex_zero2) = 0
   \<and> cursors (snd (ANB_fifoslab_pop_item ex_zero2)) = (0, 0, 0, 0)
   \<and> fst (ANB_fifoslab_item_count (snd (ANB_fifoslab_pop_item ex_zero2))) = 0
   \<and> fst (ANB_fifoslab_pop_item_raw ex_zero2_raw) = 0
   \<and> cursors (snd (ANB_fifoslab_pop_item_raw ex_zero2_raw)) = (0, 0, 0, 0)
   \<and> fst (ANB_fifoslab_item_count_raw (snd (ANB_fifoslab_pop_item_raw ex_zero2_raw))) = 0"
proof -
  have h1: "slab_inv_pad ex_zero2" using ex_reach(5) by (rule reach_inv)
  have e2: "live_entries ex_zero2 = [0, 0]" by code_simp
  have h2: "\<forall>a \<in> set (live_entries ex_zero2). a = 0"
    by (simp add: e2)
  have h3: "2 \<le> unat (fst (ANB_fifoslab_item_count ex_zero2))"
    by (simp add: ANB_fifoslab_item_count_def ex_zero2_def)
  have h4: "slab_inv ex_zero2_raw" using ex_reach_zero2_raw by (rule reach_raw_inv)
  have e5: "live_entries ex_zero2_raw = [0, 0]" by code_simp
  have h5: "\<forall>a \<in> set (live_entries ex_zero2_raw). a = 0"
    by (simp add: e5)
  have h6: "2 \<le> unat (fst (ANB_fifoslab_item_count_raw ex_zero2_raw))"
    by (simp add: ANB_fifoslab_item_count_raw_def ex_zero2_raw_def)
  show ?thesis
    using h1 e2 h3 h4 e5 h6 zero_length_items_discarded [OF h1 h2 h3 h4 h5 h6] by simp
qed

section \<open>The lock-step invariant\<close>

text \<open>
  Claim C2. In every state reachable from \<^verbatim>\<open>create\<close> through the public operations, the
  lengths of the live index entries sum (without wrap-around) to \<open>write_pos - read_pos\<close>;
  and from such a state the equality holds again after a push that fits, after any
  byte-level \<^verbatim>\<open>pop\<close>, also one that shortens a partially covered entry in place, and
  after \<^verbatim>\<open>pop_item\<close>. Both revisions.
\<close>

theorem lockstep_reachable:
  "(reach_raw p \<longrightarrow>
      lockstep p
      \<and> (\<forall>d l p'. push_fits p d l \<and> ANB_fifoslab_push p d l = Some (Inr p') \<longrightarrow> lockstep p')
      \<and> (\<forall>n r p'. ANB_fifoslab_pop (Some p) n = (r, Some p') \<longrightarrow> lockstep p')
      \<and> lockstep (snd (ANB_fifoslab_pop_item_raw p)))
   \<and> (reach q \<longrightarrow>
      lockstep q
      \<and> (\<forall>d l q'. push_fits q d l \<and> ANB_fifoslab_push_item q d l = Some (Inr q') \<longrightarrow> lockstep q')
      \<and> lockstep (snd (ANB_fifoslab_pop_item q)))"
proof (intro conjI impI allI)
  assume r: "reach_raw p"
  then have i: "slab_inv p" by (rule reach_raw_inv)
  then show "lockstep p" by (simp add: slab_inv_def)
  show "lockstep (snd (ANB_fifoslab_pop_item_raw p))"
    using pop_item_raw_inv [OF i] by (simp add: slab_inv_def)
  fix d l p'
  assume "push_fits p d l \<and> ANB_fifoslab_push p d l = Some (Inr p')"
  then have "slab_inv p'" using push_raw_ok(1) [OF i] by blast
  then show "lockstep p'" by (simp add: slab_inv_def)
next
  fix n r p'
  assume "reach_raw p" and "ANB_fifoslab_pop (Some p) n = (r, Some p')"
  then have "slab_inv p'" using pop_inv reach_raw_inv by blast
  then show "lockstep p'" by (simp add: slab_inv_def)
next
  assume r: "reach q"
  then have i: "slab_inv_pad q" by (rule reach_inv)
  then show "lockstep q" by (simp add: slab_inv_pad_def slab_inv_def)
  show "lockstep (snd (ANB_fifoslab_pop_item q))"
    using pop_item_inv [OF i] by (simp add: slab_inv_pad_def slab_inv_def)
  fix d l q'
  assume "push_fits q d l \<and> ANB_fifoslab_push_item q d l = Some (Inr q')"
  then have "slab_inv_pad q'" using push_item_ok(1) [OF i] by blast
  then show "lockstep q'" by (simp add: slab_inv_pad_def slab_inv_def)
qed

theorem lockstep_reachable_witness:
  "reach_raw ex2_raw \<and> lockstep ex2_raw
   \<and> ANB_fifoslab_pop (Some ex2_raw) 8 = (8, Some ex3_raw) \<and> lockstep ex3_raw
   \<and> live_entries ex2_raw = [16, 16] \<and> live_entries ex3_raw = [8, 16]
   \<and> lockstep (snd (ANB_fifoslab_pop_item_raw ex2_raw))
   \<and> reach_raw ex1_raw \<and> push_fits ex1_raw ex_bytes 6
   \<and> ANB_fifoslab_push ex1_raw ex_bytes 6 = Some (Inr ex2_raw)
   \<and> reach ex1 \<and> lockstep ex1 \<and> push_fits ex1 ex_bytes 6
   \<and> ANB_fifoslab_push_item ex1 ex_bytes 6 = Some (Inr ex2) \<and> lockstep ex2
   \<and> lockstep (snd (ANB_fifoslab_pop_item ex1))"
proof -
  note t2 = lockstep_reachable [of ex2_raw ex1]
  note t1 = lockstep_reachable [of ex1_raw ex1]
  have a: "lockstep ex2_raw \<and> lockstep ex3_raw \<and> lockstep (snd (ANB_fifoslab_pop_item_raw ex2_raw))"
    using t2 ex_reach_raw(3) ex_pop_raw by blast
  have b: "lockstep ex1 \<and> lockstep ex2 \<and> lockstep (snd (ANB_fifoslab_pop_item ex1))"
    using t1 ex_reach(2) ex_fits(4) ex_push2 by blast
  have c: "live_entries ex2_raw = [16, 16]" "live_entries ex3_raw = [8, 16]"
    by (simp_all add: live_entries_def ex2_raw_def ex3_raw_def)
  show ?thesis
    using a b c ex_reach_raw(2,3) ex_reach(2) ex_pop_raw ex_fits(2,4) ex_push2_raw ex_push2
    by simp
qed

section \<open>Drain reset and cursor monotonicity\<close>

lemma pop_loop_frame:
  "read_pos (pop_loop q r) = read_pos q \<and> write_pos (pop_loop q r) = write_pos q
   \<and> index_write (pop_loop q r) = index_write q"
proof (induction q r rule: pop_loop.induct)
  case (1 queue remaining)
  show ?case
  proof (cases "remaining > 0 \<and> index_read queue < index_write queue")
    case False
    then show ?thesis by (simp add: pop_loop_stop)
  next
    case True
    show ?thesis
    proof (cases "remaining \<ge> index queue ! unat (index_read queue)")
      case ge: True
      have "pop_loop queue remaining = pop_loop (queue\<lparr>index_read := index_read queue + 1\<rparr>)
              (remaining - index queue ! unat (index_read queue))"
        using True ge by (subst pop_loop.simps) (simp add: Let_def)
      then show ?thesis using "1.IH"(1) [OF True refl ge] by simp
    next
      case lt: False
      have "pop_loop queue remaining = pop_loop (queue\<lparr>index := (index queue)[unat (index_read queue) :=
                   index queue ! unat (index_read queue) - remaining]\<rparr>) 0"
        using True lt by (subst pop_loop.simps) (simp add: Let_def)
      then show ?thesis using "1.IH"(2) [OF True refl lt] by simp
    qed
  qed
qed

lemma drain_reset_cursors:
  "read_pos x = write_pos x \<Longrightarrow> cursors (drain_reset x) = (0, 0, 0, 0)"
  "read_pos x \<noteq> write_pos x \<Longrightarrow> drain_reset x = x"
  by (simp_all add: drain_reset_def cursors_def)

lemma cursors_le_refl: "cursors_le q q"
  by (simp add: cursors_le_def)

lemma pop_front_le:
  assumes inv: "slab_inv q" and ne: "index_read q < index_write q"
  shows "read_pos (snd (ANB_fifoslab_pop_item_raw q)) \<noteq> write_pos (snd (ANB_fifoslab_pop_item_raw q))
     \<longrightarrow> cursors_le q (snd (ANB_fifoslab_pop_item_raw q))"
proof
  let ?a = "index q ! unat (index_read q)"
  let ?q2 = "q\<lparr>index_read := index_read q + 1, read_pos := read_pos q + ?a\<rparr>"
  assume n: "read_pos (snd (ANB_fifoslab_pop_item_raw q)) \<noteq> write_pos (snd (ANB_fifoslab_pop_item_raw q))"
  have e: "snd (ANB_fifoslab_pop_item_raw q) = drain_reset ?q2"
    by (simp add: pop_item_raw_step [OF ne])
  have "read_pos ?q2 \<noteq> write_pos ?q2"
    using n unfolding e by (auto simp: drain_reset_def split: if_splits)
  then have d: "drain_reset ?q2 = ?q2" by (rule drain_reset_cursors(2))
  note f = pop_front [OF inv ne]
  show "cursors_le q (snd (ANB_fifoslab_pop_item_raw q))"
    unfolding e d using f(3,5) by (simp add: cursors_le_def word_le_nat_alt)
qed

lemma pop_item_le:
  assumes inv: "slab_inv q" and ne: "index_read q < index_write q"
  shows "read_pos (snd (ANB_fifoslab_pop_item q)) \<noteq> write_pos (snd (ANB_fifoslab_pop_item q))
     \<longrightarrow> cursors_le q (snd (ANB_fifoslab_pop_item q))"
proof
  let ?a = "index q ! unat (index_read q)"
  let ?q2 = "q\<lparr>index_read := index_read q + 1, read_pos := read_pos q + ?a\<rparr>"
  assume n: "read_pos (snd (ANB_fifoslab_pop_item q)) \<noteq> write_pos (snd (ANB_fifoslab_pop_item q))"
  have e: "snd (ANB_fifoslab_pop_item q) = drain_reset ?q2"
    by (simp add: pop_item_step [OF ne])
  have "read_pos ?q2 \<noteq> write_pos ?q2"
    using n unfolding e by (auto simp: drain_reset_def split: if_splits)
  then have d: "drain_reset ?q2 = ?q2" by (rule drain_reset_cursors(2))
  note f = pop_front [OF inv ne]
  show "cursors_le q (snd (ANB_fifoslab_pop_item q))"
    unfolding e d using f(3,5) by (simp add: cursors_le_def word_le_nat_alt)
qed

lemma pop_le:
  assumes inv: "slab_inv p" and p: "ANB_fifoslab_pop (Some p) m = (r, Some p')"
    and n: "read_pos p' \<noteq> write_pos p'"
  shows "cursors_le p p'"
proof (cases "m = 0 \<or> m > write_pos p - read_pos p")
  case True
  then show ?thesis using p by (simp add: pop_refused cursors_le_refl)
next
  case False
  then have a: "m \<noteq> 0" "m \<le> write_pos p - read_pos p" by (simp_all add: not_less)
  let ?q2 = "pop_loop (p\<lparr>read_pos := read_pos p + m\<rparr>) m"
  have e: "p' = drain_reset ?q2" using p by (auto simp: pop_step [OF a])
  have "read_pos ?q2 \<noteq> write_pos ?q2"
    using n unfolding e by (auto simp: drain_reset_def split: if_splits)
  then have d: "drain_reset ?q2 = ?q2" by (rule drain_reset_cursors(2))
  note f = pop_loop_ok [OF inv a(2)]
  show ?thesis
    unfolding e d using f(4,5,6,7,8) by (simp add: cursors_le_def word_le_nat_alt)
qed

lemma push_le:
  assumes inv: "slab_inv q" and inv': "slab_inv q'" and fits: "push_fits q d l"
    and f: "live_entries q' = live_entries q @ [ANB_FS_ALIGN_UP l]"
      "read_pos q' = read_pos q" "write_pos q' = write_pos q + ANB_FS_ALIGN_UP l"
      "index_read q' = index_read q" "index_write q' = index_write q + 1"
  shows "cursors_le q q'"
proof -
  have c: "cursors_ok q" and c': "cursors_ok q'" using inv inv' by (simp_all add: slab_inv_def)
  note d = cursors_okD [OF c] and d' = cursors_okD [OF c']
  have "unat (write_pos q + ANB_FS_ALIGN_UP l) = unat (write_pos q) + unat (ANB_FS_ALIGN_UP l)"
    using push_fits_align(1) [OF fits] by (rule unat_add_nowrap)
  then have w: "write_pos q \<le> write_pos q'" by (simp add: f word_le_nat_alt)
  have "length (live_entries q') = Suc (length (live_entries q))" by (simp add: f(1))
  then have "unat (index_write q') - unat (index_read q) = Suc (unat (index_write q) - unat (index_read q))"
    using length_live_entries [OF d(3)] length_live_entries [OF d'(3)] by (simp add: f(4))
  then have "unat (index_write q) \<le> unat (index_write q')" using d(2) by arith
  then show ?thesis using w by (simp add: cursors_le_def f(2,4) word_le_nat_alt)
qed

text \<open>
  Claim C4. A \<^verbatim>\<open>pop_item\<close> that retires an entry and a \<^verbatim>\<open>pop\<close> that consumes bytes, when
  they bring \<open>read_pos\<close> to \<open>write_pos\<close>, leave all four cursors at 0 (any queue, both
  revisions). In a queue that satisfies the invariant no operation moves a cursor
  backwards while bytes remain live: when \<open>read_pos \<noteq> write_pos\<close> holds after \<^verbatim>\<open>pop_item\<close>
  or \<^verbatim>\<open>pop\<close>, and after every push that fits, each cursor is at least what it was.
\<close>

theorem drain_reset_only:
  "(index_read a < index_write a \<and> read_pos a + index a ! unat (index_read a) = write_pos a
      \<longrightarrow> cursors (snd (ANB_fifoslab_pop_item a)) = (0, 0, 0, 0))
   \<and> (index_read b < index_write b \<and> read_pos b + index b ! unat (index_read b) = write_pos b
      \<longrightarrow> cursors (snd (ANB_fifoslab_pop_item_raw b)) = (0, 0, 0, 0))
   \<and> (n \<noteq> 0 \<and> n \<le> write_pos b - read_pos b \<and> read_pos b + n = write_pos b
      \<longrightarrow> (\<exists>b'. ANB_fifoslab_pop (Some b) n = (n, Some b') \<and> cursors b' = (0, 0, 0, 0)))
   \<and> (slab_inv_pad q \<longrightarrow>
        (read_pos (snd (ANB_fifoslab_pop_item q)) \<noteq> write_pos (snd (ANB_fifoslab_pop_item q))
           \<longrightarrow> cursors_le q (snd (ANB_fifoslab_pop_item q)))
        \<and> (\<forall>d l q'. push_fits q d l \<and> ANB_fifoslab_push_item q d l = Some (Inr q')
              \<longrightarrow> cursors_le q q'))
   \<and> (slab_inv p \<longrightarrow>
        (read_pos (snd (ANB_fifoslab_pop_item_raw p)) \<noteq> write_pos (snd (ANB_fifoslab_pop_item_raw p))
           \<longrightarrow> cursors_le p (snd (ANB_fifoslab_pop_item_raw p)))
        \<and> (\<forall>m r p'. ANB_fifoslab_pop (Some p) m = (r, Some p') \<and> read_pos p' \<noteq> write_pos p'
              \<longrightarrow> cursors_le p p')
        \<and> (\<forall>d l p'. push_fits p d l \<and> ANB_fifoslab_push p d l = Some (Inr p')
              \<longrightarrow> cursors_le p p'))"
proof (intro conjI impI allI)
  assume "index_read a < index_write a \<and> read_pos a + index a ! unat (index_read a) = write_pos a"
  then show "cursors (snd (ANB_fifoslab_pop_item a)) = (0, 0, 0, 0)"
    by (simp add: pop_item_step drain_reset_cursors(1))
next
  assume "index_read b < index_write b \<and> read_pos b + index b ! unat (index_read b) = write_pos b"
  then show "cursors (snd (ANB_fifoslab_pop_item_raw b)) = (0, 0, 0, 0)"
    by (simp add: pop_item_raw_step drain_reset_cursors(1))
next
  assume a: "n \<noteq> 0 \<and> n \<le> write_pos b - read_pos b \<and> read_pos b + n = write_pos b"
  let ?q2 = "pop_loop (b\<lparr>read_pos := read_pos b + n\<rparr>) n"
  have "read_pos ?q2 = write_pos ?q2" using a pop_loop_frame [of "b\<lparr>read_pos := read_pos b + n\<rparr>" n] by simp
  then have "cursors (drain_reset ?q2) = (0, 0, 0, 0)" by (rule drain_reset_cursors(1))
  then show "\<exists>b'. ANB_fifoslab_pop (Some b) n = (n, Some b') \<and> cursors b' = (0, 0, 0, 0)"
    using a by (simp add: pop_step)
next
  assume i: "slab_inv_pad q"
  then have s: "slab_inv q" by (simp add: slab_inv_pad_def)
  assume n: "read_pos (snd (ANB_fifoslab_pop_item q)) \<noteq> write_pos (snd (ANB_fifoslab_pop_item q))"
  show "cursors_le q (snd (ANB_fifoslab_pop_item q))"
  proof (cases "index_read q < index_write q")
    case True
    from pop_item_le [OF s True] n show ?thesis by simp
  next
    case False
    then show ?thesis by (simp add: pop_item_empty cursors_le_refl)
  qed
next
  fix d l q'
  assume i: "slab_inv_pad q" and a: "push_fits q d l \<and> ANB_fifoslab_push_item q d l = Some (Inr q')"
  then have f: "push_fits q d l" and p: "ANB_fifoslab_push_item q d l = Some (Inr q')" by simp_all
  note ok = push_item_ok [OF i f p]
  have "slab_inv q" "slab_inv q'" using i ok(1) by (simp_all add: slab_inv_pad_def)
  then show "cursors_le q q'" using f ok(2,4,5,6,7) by (rule push_le)
next
  assume s: "slab_inv p"
  assume n: "read_pos (snd (ANB_fifoslab_pop_item_raw p)) \<noteq> write_pos (snd (ANB_fifoslab_pop_item_raw p))"
  show "cursors_le p (snd (ANB_fifoslab_pop_item_raw p))"
  proof (cases "index_read p < index_write p")
    case True
    from pop_front_le [OF s True] n show ?thesis by simp
  next
    case False
    then show ?thesis by (simp add: pop_item_raw_empty cursors_le_refl)
  qed
next
  fix m r p'
  assume "slab_inv p" and "ANB_fifoslab_pop (Some p) m = (r, Some p') \<and> read_pos p' \<noteq> write_pos p'"
  then show "cursors_le p p'" using pop_le by blast
next
  fix d l p'
  assume i: "slab_inv p" and a: "push_fits p d l \<and> ANB_fifoslab_push p d l = Some (Inr p')"
  then have f: "push_fits p d l" and p: "ANB_fifoslab_push p d l = Some (Inr p')" by simp_all
  note ok = push_raw_ok [OF i f p]
  show "cursors_le p p'" using i ok(1) f ok(2,3,4,5,6) by (rule push_le)
qed

lemma ex_pop_item_values:
  "cursors (snd (ANB_fifoslab_pop_item ex2)) = (16, 32, 1, 2)"
  "cursors (snd (ANB_fifoslab_pop_item_raw ex2_raw)) = (16, 32, 1, 2)"
  "fst (ANB_fifoslab_pop_item ex2) = 6"
  "fst (ANB_fifoslab_pop_item_raw ex2_raw) = 16"
  by code_simp+

theorem drain_reset_only_witness:
  "(index_read ex1 < index_write ex1 \<and> read_pos ex1 + index ex1 ! unat (index_read ex1) = write_pos ex1)
   \<and> cursors (snd (ANB_fifoslab_pop_item ex1)) = (0, 0, 0, 0)
   \<and> (index_read ex1_raw < index_write ex1_raw
        \<and> read_pos ex1_raw + index ex1_raw ! unat (index_read ex1_raw) = write_pos ex1_raw)
   \<and> cursors (snd (ANB_fifoslab_pop_item_raw ex1_raw)) = (0, 0, 0, 0)
   \<and> ((16 :: size_t) \<noteq> 0 \<and> 16 \<le> write_pos ex1_raw - read_pos ex1_raw
        \<and> read_pos ex1_raw + 16 = write_pos ex1_raw)
   \<and> (\<exists>b'. ANB_fifoslab_pop (Some ex1_raw) 16 = (16, Some b') \<and> cursors b' = (0, 0, 0, 0))
   \<and> slab_inv_pad ex2
   \<and> read_pos (snd (ANB_fifoslab_pop_item ex2)) \<noteq> write_pos (snd (ANB_fifoslab_pop_item ex2))
   \<and> cursors_le ex2 (snd (ANB_fifoslab_pop_item ex2))
   \<and> slab_inv_pad ex1 \<and> push_fits ex1 ex_bytes 6
   \<and> ANB_fifoslab_push_item ex1 ex_bytes 6 = Some (Inr ex2) \<and> cursors_le ex1 ex2
   \<and> slab_inv ex2_raw
   \<and> read_pos (snd (ANB_fifoslab_pop_item_raw ex2_raw)) \<noteq> write_pos (snd (ANB_fifoslab_pop_item_raw ex2_raw))
   \<and> cursors_le ex2_raw (snd (ANB_fifoslab_pop_item_raw ex2_raw))
   \<and> ANB_fifoslab_pop (Some ex2_raw) 8 = (8, Some ex3_raw) \<and> read_pos ex3_raw \<noteq> write_pos ex3_raw
   \<and> cursors_le ex2_raw ex3_raw
   \<and> slab_inv ex1_raw \<and> push_fits ex1_raw ex_bytes 6
   \<and> ANB_fifoslab_push ex1_raw ex_bytes 6 = Some (Inr ex2_raw) \<and> cursors_le ex1_raw ex2_raw"
proof -
  have h1: "index_read ex1 < index_write ex1 \<and> read_pos ex1 + index ex1 ! unat (index_read ex1) = write_pos ex1"
    by (simp add: ex1_def)
  have h2: "index_read ex1_raw < index_write ex1_raw
        \<and> read_pos ex1_raw + index ex1_raw ! unat (index_read ex1_raw) = write_pos ex1_raw"
    by (simp add: ex1_raw_def)
  have h3: "(16 :: size_t) \<noteq> 0 \<and> 16 \<le> write_pos ex1_raw - read_pos ex1_raw
        \<and> read_pos ex1_raw + 16 = write_pos ex1_raw"
    by (simp add: ex1_raw_def)
  have h4: "slab_inv_pad ex2" "slab_inv_pad ex1" using ex_reach(2,3) by (simp_all add: reach_inv)
  have h5: "slab_inv ex2_raw" "slab_inv ex1_raw" using ex_reach_raw(2,3) by (simp_all add: reach_raw_inv)
  have h6: "read_pos (snd (ANB_fifoslab_pop_item ex2)) \<noteq> write_pos (snd (ANB_fifoslab_pop_item ex2))"
    "read_pos (snd (ANB_fifoslab_pop_item_raw ex2_raw)) \<noteq> write_pos (snd (ANB_fifoslab_pop_item_raw ex2_raw))"
    using ex_pop_item_values(1,2) by (simp_all add: cursors_def)
  have h7: "read_pos ex3_raw \<noteq> write_pos ex3_raw" by (simp add: ex3_raw_def)
  note t1 = drain_reset_only [of ex1 ex1_raw 16 ex2 ex2_raw]
  note t2 = drain_reset_only [of ex1 ex1_raw 16 ex1 ex1_raw]
  have a: "cursors (snd (ANB_fifoslab_pop_item ex1)) = (0, 0, 0, 0)"
    "cursors (snd (ANB_fifoslab_pop_item_raw ex1_raw)) = (0, 0, 0, 0)"
    "\<exists>b'. ANB_fifoslab_pop (Some ex1_raw) 16 = (16, Some b') \<and> cursors b' = (0, 0, 0, 0)"
    using t1 h1 h2 h3 by blast+
  have b: "cursors_le ex2 (snd (ANB_fifoslab_pop_item ex2))"
    "cursors_le ex2_raw (snd (ANB_fifoslab_pop_item_raw ex2_raw))"
    "cursors_le ex2_raw ex3_raw"
    using t1 h4(1) h5(1) h6 h7 ex_pop_raw by blast+
  have c: "cursors_le ex1 ex2" "cursors_le ex1_raw ex2_raw"
    using t2 h4(2) h5(2) ex_fits(2,4) ex_push2 ex_push2_raw by blast+
  show ?thesis
    using h1 h2 h3 h4 h5 h6 h7 a b c ex_fits(2,4) ex_push2 ex_push2_raw ex_pop_raw
    by blast
qed

section \<open>Byte-level pop\<close>

text \<open>
  Claim C5, as amended. In a queue that satisfies the invariant and has at least \<open>n\<close>
  live bytes, \<^verbatim>\<open>pop(n)\<close> returns \<open>n\<close>. For \<open>n = 0\<close> nothing changes. When \<open>n\<close> is all that
  is live, the four cursors are reset to 0. Otherwise \<open>read_pos\<close> advances by \<open>n\<close>,
  \<open>index_read\<close> advances past \<open>k\<close> entries whose lengths sum to \<open>c \<le> n\<close>, and either
  \<open>c = n\<close> and the live entries are the old ones without the first \<open>k\<close>, or \<open>n\<close> ends
  strictly inside entry \<open>k\<close>, which stays live with its stored length lowered by the
  remainder \<open>n - c\<close>.
\<close>

theorem pop_consumes:
  assumes "slab_inv p" and "n \<le> write_pos p - read_pos p"
  shows "\<exists>p'. ANB_fifoslab_pop (Some p) n = (n, Some p') \<and>
     (if n = 0 then p' = p
      else if n = write_pos p - read_pos p then cursors p' = (0, 0, 0, 0)
      else read_pos p' = read_pos p + n \<and> write_pos p' = write_pos p
         \<and> index_write p' = index_write p \<and>
         (\<exists>k c. index_read p' = index_read p + of_nat k
            \<and> c = sum_list (map unat (take k (live_entries p))) \<and> c \<le> unat n \<and>
            (if c = unat n then live_entries p' = drop k (live_entries p)
             else k < length (live_entries p) \<and> unat n - c < unat (live_entries p ! k)
               \<and> live_entries p' =
                    (live_entries p ! k - (n - of_nat c)) # drop (Suc k) (live_entries p))))"
proof (cases "n = 0")
  case True
  then show ?thesis by (simp add: pop_refused)
next
  case nz: False
  let ?q2 = "pop_loop (p\<lparr>read_pos := read_pos p + n\<rparr>) n"
  have st: "ANB_fifoslab_pop (Some p) n = (n, Some (drain_reset ?q2))"
    using nz assms(2) by (rule pop_step)
  note f = pop_loop_ok [OF assms]
  show ?thesis
  proof (cases "n = write_pos p - read_pos p")
    case True
    then have "read_pos ?q2 = write_pos ?q2" using f(4,5) by simp
    then have "cursors (drain_reset ?q2) = (0, 0, 0, 0)" by (rule drain_reset_cursors(1))
    then show ?thesis using st nz True by simp
  next
    case False
    have "read_pos p + n \<noteq> write_pos p"
    proof
      assume "read_pos p + n = write_pos p"
      then have "write_pos p - read_pos p = n" by (metis add_diff_cancel_left')
      with False show False by simp
    qed
    then have "read_pos ?q2 \<noteq> write_pos ?q2" using f(4,5) by simp
    then have d: "drain_reset ?q2 = ?q2" by (rule drain_reset_cursors(2))
    define k where "k = pop_count n (live_entries p)"
    define c where "c = sum_list (map unat (take k (live_entries p)))"
    note sp = pop_entries_spec [OF f(9), folded k_def, folded c_def]
    have "c = unat n \<or> c < unat n" using sp(1) by arith
    then have "if c = unat n then live_entries ?q2 = drop k (live_entries p)
             else k < length (live_entries p) \<and> unat n - c < unat (live_entries p ! k)
               \<and> live_entries ?q2 =
                    (live_entries p ! k - (n - of_nat c)) # drop (Suc k) (live_entries p)"
      using sp(2,3) f(2) by auto
    then have "\<exists>k c. index_read ?q2 = index_read p + of_nat k
            \<and> c = sum_list (map unat (take k (live_entries p))) \<and> c \<le> unat n \<and>
            (if c = unat n then live_entries ?q2 = drop k (live_entries p)
             else k < length (live_entries p) \<and> unat n - c < unat (live_entries p ! k)
               \<and> live_entries ?q2 =
                    (live_entries p ! k - (n - of_nat c)) # drop (Suc k) (live_entries p))"
      using f(3) sp(1) c_def k_def by blast
    then show ?thesis using st d nz False f(4,5,6) by simp
  qed
qed

text \<open>
  Claim C5 as stated fails when the pop drains the queue: with one live entry of 16
  bytes, \<^verbatim>\<open>pop(16)\<close> returns 16 and leaves \<open>read_pos\<close> at 0, not at \<open>read_pos + 16\<close>.
\<close>

theorem pop_drain_counterexample:
  "slab_inv ex1_raw \<and> (16 :: size_t) \<le> write_pos ex1_raw - read_pos ex1_raw
   \<and> fst (ANB_fifoslab_pop (Some ex1_raw) 16) = 16
   \<and> read_pos (the (snd (ANB_fifoslab_pop (Some ex1_raw) 16))) \<noteq> read_pos ex1_raw + 16"
proof -
  have "slab_inv ex1_raw" using ex_reach_raw(2) by (rule reach_raw_inv)
  moreover have "(16 :: size_t) \<le> write_pos ex1_raw - read_pos ex1_raw" by (simp add: ex1_raw_def)
  moreover have "fst (ANB_fifoslab_pop (Some ex1_raw) 16) = 16" by code_simp
  moreover have "read_pos (the (snd (ANB_fifoslab_pop (Some ex1_raw) 16))) = 0" by code_simp
  moreover have "read_pos ex1_raw + 16 = 16" by (simp add: ex1_raw_def)
  ultimately show ?thesis by simp
qed

theorem pop_consumes_witness:
  "slab_inv ex2_raw \<and> (8 :: size_t) \<le> write_pos ex2_raw - read_pos ex2_raw
   \<and> (\<exists>p'. ANB_fifoslab_pop (Some ex2_raw) 8 = (8, Some p') \<and>
     (if (8 :: size_t) = 0 then p' = ex2_raw
      else if 8 = write_pos ex2_raw - read_pos ex2_raw then cursors p' = (0, 0, 0, 0)
      else read_pos p' = read_pos ex2_raw + 8 \<and> write_pos p' = write_pos ex2_raw
         \<and> index_write p' = index_write ex2_raw \<and>
         (\<exists>k c. index_read p' = index_read ex2_raw + of_nat k
            \<and> c = sum_list (map unat (take k (live_entries ex2_raw))) \<and> c \<le> unat (8 :: size_t) \<and>
            (if c = unat (8 :: size_t) then live_entries p' = drop k (live_entries ex2_raw)
             else k < length (live_entries ex2_raw) \<and> unat (8 :: size_t) - c < unat (live_entries ex2_raw ! k)
               \<and> live_entries p' =
                    (live_entries ex2_raw ! k - (8 - of_nat c)) # drop (Suc k) (live_entries ex2_raw)))))
   \<and> ANB_fifoslab_pop (Some ex2_raw) 8 = (8, Some ex3_raw)
   \<and> live_entries ex2_raw = [16, 16] \<and> live_entries ex3_raw = [8, 16]"
proof -
  have h1: "slab_inv ex2_raw" using ex_reach_raw(3) by (rule reach_raw_inv)
  have h2: "(8 :: size_t) \<le> write_pos ex2_raw - read_pos ex2_raw" by (simp add: ex2_raw_def)
  have c: "live_entries ex2_raw = [16, 16]" "live_entries ex3_raw = [8, 16]"
    by (simp_all add: live_entries_def ex2_raw_def ex3_raw_def)
  show ?thesis
    using h1 h2 c ex_pop_raw pop_consumes [OF h1 h2] by (intro conjI) assumption+
qed

section \<open>Indexed peek and the iterator\<close>

lemma walk_offset_sum:
  "i \<le> b \<Longrightarrow> walk_offset idx i b off = off + sum_list (map (\<lambda>j. idx ! j) [unat i..<unat b])"
proof (induction idx i b off rule: walk_offset.induct)
  case (1 idx i bound offset)
  show ?case
  proof (cases "i < bound")
    case True
    have s: "unat (i + 1) = Suc (unat i)" using True by (rule unat_succ_lt)
    have lt: "unat i < unat bound" using True by (simp add: word_less_nat_alt)
    then have le: "i + 1 \<le> bound" using s by (simp add: word_le_nat_alt)
    have "walk_offset idx i bound offset = walk_offset idx (i + 1) bound (offset + idx ! unat i)"
      using True by (subst walk_offset.simps) simp
    also have "\<dots> = offset + idx ! unat i + sum_list (map (\<lambda>j. idx ! j) [unat (i + 1)..<unat bound])"
      using "1.IH" [OF True le] .
    also have "\<dots> = offset + sum_list (map (\<lambda>j. idx ! j) [unat i..<unat bound])"
      using lt by (simp add: s upt_conv_Cons)
    finally show ?thesis .
  next
    case False
    with "1.prems" have "i = bound" by simp
    then show ?thesis by (subst walk_offset.simps) simp
  qed
qed

text \<open>Indices of live items: no wrap-around below \<open>index_write\<close>.\<close>

lemma live_index:
  fixes ir iw n :: size_t
  assumes "ir \<le> iw" and "n < iw - ir"
  shows "unat (ir + n) = unat ir + unat n" and "unat ir + unat n < unat iw" and "ir \<le> ir + n"
    and "ir + n < iw"
proof -
  have d: "unat (iw - ir) = unat iw - unat ir"
    using assms(1) by (simp add: unat_sub word_le_nat_alt)
  have n: "unat n < unat iw - unat ir" using assms(2) d by (simp add: word_less_nat_alt)
  have b: "unat iw < 2 ^ 64" using unsigned_less [of iw] by simp
  show a: "unat (ir + n) = unat ir + unat n"
    using n b by (intro unat_add_nowrap) simp
  show "unat ir + unat n < unat iw" using n by simp
  show "ir \<le> ir + n" using a by (simp add: word_le_nat_alt)
  show "ir + n < iw" using a n by (simp add: word_less_nat_alt)
qed

lemma live_index_nat:
  fixes ir iw :: size_t
  assumes "ir \<le> iw" and "j < unat (iw - ir)"
  shows "(of_nat j :: size_t) < iw - ir" and "unat (of_nat j :: size_t) = j"
proof -
  have "unat (iw - ir) < 2 ^ 64" using unsigned_less [of "iw - ir"] by simp
  then show u: "unat (of_nat j :: size_t) = j" using assms(2) by (simp add: unat_of_nat)
  then show "(of_nat j :: size_t) < iw - ir" using assms(2) by (simp add: word_less_nat_alt)
qed

lemma peek_item_in_range:
  assumes "index_read q \<le> index_write q" and "n < index_write q - index_read q"
  shows "ANB_fifoslab_peek_item q n out
       = Inr (Some (view_at q (unat n)),
              (case out of None \<Rightarrow> None | Some _ \<Rightarrow> Some (len_at q (unat n))), q)"
proof -
  note l = live_index [OF assms]
  have "walk_offset (index q) (index_read q) (index_read q + n) (read_pos q) = view_at q (unat n)"
    using walk_offset_sum [OF l(3)] by (simp add: view_at_def l(1))
  then show ?thesis
    using assms(2)
    by (auto simp: ANB_fifoslab_peek_item_def Let_def l(1) len_at_def split: option.splits)
qed

lemma peek_item_raw_in_range:
  assumes "index_read q \<le> index_write q" and "n < index_write q - index_read q"
  shows "ANB_fifoslab_peek_item_raw q n out
       = (Some (view_at q (unat n)),
          (case out of None \<Rightarrow> None | Some _ \<Rightarrow> Some (index q ! (unat (index_read q) + unat n))), q)"
proof -
  note l = live_index [OF assms]
  have "walk_offset (index q) (index_read q) (index_read q + n) (read_pos q) = view_at q (unat n)"
    using walk_offset_sum [OF l(3)] by (simp add: view_at_def l(1))
  then show ?thesis
    using assms(2)
    by (auto simp: ANB_fifoslab_peek_item_raw_def Let_def l(1) split: option.splits)
qed

lemma view_at_Suc: "view_at q (Suc j) = view_at q j + index q ! (unat (index_read q) + j)"
  by (simp add: view_at_def)

lemma peek_item_iter_in_range:
  assumes "index_read q \<le> index_write q" and "j < unat (index_write q - index_read q)"
    and "item_idx it = of_nat j" and "byte_offset it = view_at q j - read_pos q"
  shows "ANB_fifoslab_peek_item_iter q it out
       = (Some (view_at q j),
          \<lparr>item_idx = of_nat (Suc j), byte_offset = view_at q (Suc j) - read_pos q\<rparr>,
          (case out of None \<Rightarrow> None | Some _ \<Rightarrow> Some (len_at q j)), q)"
proof -
  note n = live_index_nat [OF assms(1,2)]
  note l = live_index [OF assms(1) n(1)]
  have "\<not> index_write q \<le> index_read q + of_nat j" using l(4) by simp
  then show ?thesis
    using assms(3,4)
    by (auto simp: ANB_fifoslab_peek_item_iter_def Let_def l(1) n(2) len_at_def view_at_Suc
        split: option.splits)
qed

lemma peek_item_iter_raw_in_range:
  assumes "index_read q \<le> index_write q" and "j < unat (index_write q - index_read q)"
    and "item_idx it = of_nat j" and "byte_offset it = view_at q j - read_pos q"
  shows "ANB_fifoslab_peek_item_iter_raw q it out
       = (Some (view_at q j),
          \<lparr>item_idx = of_nat (Suc j), byte_offset = view_at q (Suc j) - read_pos q\<rparr>,
          (case out of None \<Rightarrow> None | Some _ \<Rightarrow> Some (index q ! (unat (index_read q) + j))), q)"
proof -
  note n = live_index_nat [OF assms(1,2)]
  note l = live_index [OF assms(1) n(1)]
  have "\<not> index_write q \<le> index_read q + of_nat j" using l(4) by simp
  then show ?thesis
    using assms(3,4)
    by (auto simp: ANB_fifoslab_peek_item_iter_raw_def Let_def l(1) n(2) view_at_Suc
        split: option.splits)
qed

lemma peek_item_iter_exhausted:
  "item_idx it = index_write q - index_read q \<Longrightarrow>
   ANB_fifoslab_peek_item_iter q it out = (None, it, out, q)"
  "item_idx it = index_write p - index_read p \<Longrightarrow>
   ANB_fifoslab_peek_item_iter_raw p it out = (None, it, out, p)"
  by (simp_all add: ANB_fifoslab_peek_item_iter_def ANB_fifoslab_peek_item_iter_raw_def)


lemma view_at_0: "view_at q 0 = read_pos q"
  by (simp add: view_at_def)

lemma iter_collect_from:
  assumes "index_read q \<le> index_write q"
  shows "j + k \<le> unat (index_write q - index_read q) \<Longrightarrow> item_idx it = of_nat j
     \<Longrightarrow> byte_offset it = view_at q j - read_pos q
     \<Longrightarrow> iter_collect q k it out
       = (map (\<lambda>i. (Some (view_at q i), case out of None \<Rightarrow> None | Some _ \<Rightarrow> Some (len_at q i)))
            [j..<j + k],
          \<lparr>item_idx = of_nat (j + k), byte_offset = view_at q (j + k) - read_pos q\<rparr>)"
proof (induction k arbitrary: j it out)
  case 0
  then show ?case by (cases it) simp
next
  case (Suc k)
  have lt: "j < unat (index_write q - index_read q)" using Suc.prems(1) by simp
  let ?it = "\<lparr>item_idx = of_nat (Suc j), byte_offset = view_at q (Suc j) - read_pos q\<rparr>"
  let ?out = "case out of None \<Rightarrow> None | Some _ \<Rightarrow> Some (len_at q j)"
  have st: "ANB_fifoslab_peek_item_iter q it out = (Some (view_at q j), ?it, ?out, q)"
    using assms lt Suc.prems(2,3) by (rule peek_item_iter_in_range)
  have ih: "iter_collect q k ?it ?out
       = (map (\<lambda>i. (Some (view_at q i), case ?out of None \<Rightarrow> None | Some _ \<Rightarrow> Some (len_at q i)))
            [Suc j..<Suc j + k],
          \<lparr>item_idx = of_nat (Suc j + k), byte_offset = view_at q (Suc j + k) - read_pos q\<rparr>)"
    using Suc.prems(1) by (intro Suc.IH) simp_all
  have c: "(case ?out of None \<Rightarrow> None | Some _ \<Rightarrow> Some (len_at q i))
         = (case out of None \<Rightarrow> None | Some _ \<Rightarrow> Some (len_at q i))" for i
    by (cases out) simp_all
  have u: "[j..<Suc j + k] = j # [Suc j..<Suc j + k]" by (simp add: upt_conv_Cons)
  have a: "j + Suc k = Suc j + k" by simp
  show ?case
    unfolding a u by (simp only: iter_collect.simps st ih prod.case c list.map)
qed

lemma iter_collect_raw_from:
  assumes "index_read q \<le> index_write q"
  shows "j + k \<le> unat (index_write q - index_read q) \<Longrightarrow> item_idx it = of_nat j
     \<Longrightarrow> byte_offset it = view_at q j - read_pos q
     \<Longrightarrow> iter_collect_raw q k it out
       = (map (\<lambda>i. (Some (view_at q i),
                    case out of None \<Rightarrow> None | Some _ \<Rightarrow> Some (index q ! (unat (index_read q) + i))))
            [j..<j + k],
          \<lparr>item_idx = of_nat (j + k), byte_offset = view_at q (j + k) - read_pos q\<rparr>)"
proof (induction k arbitrary: j it out)
  case 0
  then show ?case by (cases it) simp
next
  case (Suc k)
  have lt: "j < unat (index_write q - index_read q)" using Suc.prems(1) by simp
  let ?it = "\<lparr>item_idx = of_nat (Suc j), byte_offset = view_at q (Suc j) - read_pos q\<rparr>"
  let ?out = "case out of None \<Rightarrow> None | Some _ \<Rightarrow> Some (index q ! (unat (index_read q) + j))"
  have st: "ANB_fifoslab_peek_item_iter_raw q it out = (Some (view_at q j), ?it, ?out, q)"
    using assms lt Suc.prems(2,3) by (rule peek_item_iter_raw_in_range)
  have ih: "iter_collect_raw q k ?it ?out
       = (map (\<lambda>i. (Some (view_at q i),
                    case ?out of None \<Rightarrow> None | Some _ \<Rightarrow> Some (index q ! (unat (index_read q) + i))))
            [Suc j..<Suc j + k],
          \<lparr>item_idx = of_nat (Suc j + k), byte_offset = view_at q (Suc j + k) - read_pos q\<rparr>)"
    using Suc.prems(1) by (intro Suc.IH) simp_all
  have c: "(case ?out of None \<Rightarrow> None | Some _ \<Rightarrow> Some (index q ! (unat (index_read q) + i)))
         = (case out of None \<Rightarrow> None | Some _ \<Rightarrow> Some (index q ! (unat (index_read q) + i)))" for i
    by (cases out) simp_all
  have u: "[j..<Suc j + k] = j # [Suc j..<Suc j + k]" by (simp add: upt_conv_Cons)
  have a: "j + Suc k = Suc j + k" by simp
  show ?case
    unfolding a u by (simp only: iter_collect_raw.simps st ih prod.case c list.map)
qed

lemma peek_collect_eq:
  assumes "index_read q \<le> index_write q" and "k \<le> unat (index_write q - index_read q)"
  shows "peek_collect q k out
       = map (\<lambda>i. (Some (view_at q i), case out of None \<Rightarrow> None | Some _ \<Rightarrow> Some (len_at q i))) [0..<k]"
  unfolding peek_collect_def
proof (rule map_cong [OF refl])
  fix i assume "i \<in> set [0..<k]"
  then have "i < unat (index_write q - index_read q)" using assms(2) by simp
  note n = live_index_nat [OF assms(1) this]
  show "(case ANB_fifoslab_peek_item q (of_nat i) out of
                 Inr (view, out', _) \<Rightarrow> (view, out') | Inl _ \<Rightarrow> (None, None))
      = (Some (view_at q i), case out of None \<Rightarrow> None | Some _ \<Rightarrow> Some (len_at q i))"
    by (auto simp: peek_item_in_range [OF assms(1) n(1)] n(2) split: option.splits)
qed

lemma peek_collect_raw_eq:
  assumes "index_read q \<le> index_write q" and "k \<le> unat (index_write q - index_read q)"
  shows "peek_collect_raw q k out
       = map (\<lambda>i. (Some (view_at q i),
                    case out of None \<Rightarrow> None | Some _ \<Rightarrow> Some (index q ! (unat (index_read q) + i)))) [0..<k]"
  unfolding peek_collect_raw_def
proof (rule map_cong [OF refl])
  fix i assume "i \<in> set [0..<k]"
  then have "i < unat (index_write q - index_read q)" using assms(2) by simp
  note n = live_index_nat [OF assms(1) this]
  show "(case ANB_fifoslab_peek_item_raw q (of_nat i) out of (view, out', _) \<Rightarrow> (view, out'))
      = (Some (view_at q i),
         case out of None \<Rightarrow> None | Some _ \<Rightarrow> Some (index q ! (unat (index_read q) + i)))"
    by (auto simp: peek_item_raw_in_range [OF assms(1) n(1)] n(2) split: option.splits)
qed

text \<open>
  Claim C3. On a queue with \<open>index_read \<le> index_write\<close> and \<open>N = item_count()\<close> live
  items, \<open>N\<close> steps of a zero-initialised iterator yield the same list of (view offset,
  reported length) pairs as \<^verbatim>\<open>peek_item(i)\<close> for \<open>i = 0, \<dots>, N - 1\<close>, every view being
  non-\<^verbatim>\<open>NULL\<close>, and the next iterator step returns \<^verbatim>\<open>NULL\<close>. Both revisions.
\<close>

theorem iterator_equivalence:
  assumes "index_read q \<le> index_write q" and "index_read p \<le> index_write p"
  shows "fst (iter_collect q (unat (fst (ANB_fifoslab_item_count q)))
              \<lparr>item_idx = 0, byte_offset = 0\<rparr> out)
           = peek_collect q (unat (fst (ANB_fifoslab_item_count q))) out
     \<and> list_all (\<lambda>r. fst r \<noteq> None) (peek_collect q (unat (fst (ANB_fifoslab_item_count q))) out)
     \<and> fst (ANB_fifoslab_peek_item_iter q
              (snd (iter_collect q (unat (fst (ANB_fifoslab_item_count q)))
                     \<lparr>item_idx = 0, byte_offset = 0\<rparr> out)) out') = None
     \<and> fst (iter_collect_raw p (unat (fst (ANB_fifoslab_item_count_raw p)))
              \<lparr>item_idx = 0, byte_offset = 0\<rparr> out)
           = peek_collect_raw p (unat (fst (ANB_fifoslab_item_count_raw p))) out
     \<and> list_all (\<lambda>r. fst r \<noteq> None)
          (peek_collect_raw p (unat (fst (ANB_fifoslab_item_count_raw p))) out)
     \<and> fst (ANB_fifoslab_peek_item_iter_raw p
              (snd (iter_collect_raw p (unat (fst (ANB_fifoslab_item_count_raw p)))
                     \<lparr>item_idx = 0, byte_offset = 0\<rparr> out)) out') = None"
proof -
  let ?z = "\<lparr>item_idx = 0, byte_offset = 0\<rparr>"
  let ?N = "unat (index_write q - index_read q)"
  let ?M = "unat (index_write p - index_read p)"
  have z: "item_idx ?z = of_nat 0" "byte_offset ?z = view_at q 0 - read_pos q"
    "byte_offset ?z = view_at p 0 - read_pos p"
    by (simp_all add: view_at_0)
  have i: "iter_collect q ?N ?z out
       = (map (\<lambda>i. (Some (view_at q i), case out of None \<Rightarrow> None | Some _ \<Rightarrow> Some (len_at q i)))
            [0..<0 + ?N],
          \<lparr>item_idx = of_nat (0 + ?N), byte_offset = view_at q (0 + ?N) - read_pos q\<rparr>)"
    using assms(1) _ z(1,2) by (rule iter_collect_from) simp
  have pc: "peek_collect q ?N out
       = map (\<lambda>i. (Some (view_at q i), case out of None \<Rightarrow> None | Some _ \<Rightarrow> Some (len_at q i))) [0..<?N]"
    using assms(1) by (rule peek_collect_eq) simp
  have 1: "fst (iter_collect q ?N ?z out) = peek_collect q ?N out" by (simp add: i pc)
  have 2: "list_all (\<lambda>r. fst r \<noteq> None) (peek_collect q ?N out)"
    by (simp add: pc list_all_iff)
  have 3: "fst (ANB_fifoslab_peek_item_iter q (snd (iter_collect q ?N ?z out)) out') = None"
    by (simp add: i peek_item_iter_exhausted(1))
  have i': "iter_collect_raw p ?M ?z out
       = (map (\<lambda>i. (Some (view_at p i),
                    case out of None \<Rightarrow> None | Some _ \<Rightarrow> Some (index p ! (unat (index_read p) + i))))
            [0..<0 + ?M],
          \<lparr>item_idx = of_nat (0 + ?M), byte_offset = view_at p (0 + ?M) - read_pos p\<rparr>)"
    using assms(2) _ z(1,3) by (rule iter_collect_raw_from) simp
  have pc': "peek_collect_raw p ?M out
       = map (\<lambda>i. (Some (view_at p i),
                    case out of None \<Rightarrow> None | Some _ \<Rightarrow> Some (index p ! (unat (index_read p) + i)))) [0..<?M]"
    using assms(2) by (rule peek_collect_raw_eq) simp
  have 4: "fst (iter_collect_raw p ?M ?z out) = peek_collect_raw p ?M out" by (simp add: i' pc')
  have 5: "list_all (\<lambda>r. fst r \<noteq> None) (peek_collect_raw p ?M out)"
    by (simp add: pc' list_all_iff)
  have 6: "fst (ANB_fifoslab_peek_item_iter_raw p (snd (iter_collect_raw p ?M ?z out)) out') = None"
    by (simp add: i' peek_item_iter_exhausted(2))
  from 1 2 3 4 5 6 show ?thesis
    by (simp add: ANB_fifoslab_item_count_def ANB_fifoslab_item_count_raw_def)
qed

lemma ex_peek_values:
  "peek_collect ex2 2 (Some 0) = [(Some 0, Some 6), (Some 16, Some 6)]"
  "peek_collect_raw ex2_raw 2 (Some 0) = [(Some 0, Some 16), (Some 16, Some 16)]"
  "fst (iter_collect ex2 2 \<lparr>item_idx = 0, byte_offset = 0\<rparr> (Some 0)) = [(Some 0, Some 6), (Some 16, Some 6)]"
  "unat (fst (ANB_fifoslab_item_count ex2)) = 2"
  "unat (fst (ANB_fifoslab_item_count_raw ex2_raw)) = 2"
  by code_simp+

theorem iterator_equivalence_witness:
  "index_read ex2 \<le> index_write ex2 \<and> index_read ex2_raw \<le> index_write ex2_raw
   \<and> fst (iter_collect ex2 (unat (fst (ANB_fifoslab_item_count ex2)))
              \<lparr>item_idx = 0, byte_offset = 0\<rparr> (Some 0))
           = peek_collect ex2 (unat (fst (ANB_fifoslab_item_count ex2))) (Some 0)
   \<and> list_all (\<lambda>r. fst r \<noteq> None) (peek_collect ex2 (unat (fst (ANB_fifoslab_item_count ex2))) (Some 0))
   \<and> fst (ANB_fifoslab_peek_item_iter ex2
              (snd (iter_collect ex2 (unat (fst (ANB_fifoslab_item_count ex2)))
                     \<lparr>item_idx = 0, byte_offset = 0\<rparr> (Some 0))) (Some 0)) = None
   \<and> fst (iter_collect_raw ex2_raw (unat (fst (ANB_fifoslab_item_count_raw ex2_raw)))
              \<lparr>item_idx = 0, byte_offset = 0\<rparr> (Some 0))
           = peek_collect_raw ex2_raw (unat (fst (ANB_fifoslab_item_count_raw ex2_raw))) (Some 0)
   \<and> list_all (\<lambda>r. fst r \<noteq> None)
          (peek_collect_raw ex2_raw (unat (fst (ANB_fifoslab_item_count_raw ex2_raw))) (Some 0))
   \<and> fst (ANB_fifoslab_peek_item_iter_raw ex2_raw
              (snd (iter_collect_raw ex2_raw (unat (fst (ANB_fifoslab_item_count_raw ex2_raw)))
                     \<lparr>item_idx = 0, byte_offset = 0\<rparr> (Some 0))) (Some 0)) = None
   \<and> unat (fst (ANB_fifoslab_item_count ex2)) = 2
   \<and> peek_collect ex2 2 (Some 0) = [(Some 0, Some 6), (Some 16, Some 6)]
   \<and> peek_collect_raw ex2_raw 2 (Some 0) = [(Some 0, Some 16), (Some 16, Some 16)]"
proof -
  have h1: "index_read ex2 \<le> index_write ex2" by (simp add: ex2_def)
  have h2: "index_read ex2_raw \<le> index_write ex2_raw" by (simp add: ex2_raw_def)
  show ?thesis
    using h1 h2 iterator_equivalence [OF h1 h2, of "Some 0" "Some 0"] ex_peek_values(1,2,4)
    by (intro conjI) (assumption | (elim conjE, assumption))+
qed

section \<open>Original lengths of items\<close>

lemma pushed_ok:
  "pushed q items q' \<Longrightarrow> slab_inv_pad q
   \<Longrightarrow> slab_inv_pad q' \<and> live_lens q' = live_lens q @ map snd items
     \<and> live_entries q' = live_entries q @ map (\<lambda>x. ANB_FS_ALIGN_UP (snd x)) items"
proof (induction rule: pushed.induct)
  case (pushed_Nil q)
  then show ?case by simp
next
  case (pushed_Cons q d l q1 items q')
  note ok = push_item_ok [OF pushed_Cons.prems pushed_Cons.hyps(1,2)]
  from pushed_Cons.IH [OF ok(1)] show ?case by (simp add: ok(2,3))
qed

lemma length_live_lens:
  assumes "cursors_ok q" and "pads_ok q"
  shows "length (live_lens q) = unat (index_write q - index_read q)"
    and "length (live_entries q) = unat (index_write q - index_read q)"
    and "length (live_pads q) = unat (index_write q - index_read q)"
proof -
  note c = cursors_okD [OF assms(1)]
  have pl: "length (pad_index q) = length (index q)" using assms(2) by (simp add: pads_ok_def)
  have d: "unat (index_write q - index_read q) = unat (index_write q) - unat (index_read q)"
    using c(2) by (simp add: unat_sub word_le_nat_alt)
  show e: "length (live_entries q) = unat (index_write q - index_read q)"
    using c(3) d by (simp add: live_entries_def)
  show p: "length (live_pads q) = unat (index_write q - index_read q)"
    using c(3) d pl by (simp add: live_pads_def)
  show "length (live_lens q) = unat (index_write q - index_read q)"
    using e p by (simp add: live_lens_def)
qed

lemma live_lens_nth:
  assumes "cursors_ok q" and "pads_ok q" and "n < length (live_lens q)"
  shows "live_lens q ! n = len_at q n"
proof -
  note c = cursors_okD [OF assms(1)]
  note l = length_live_lens [OF assms(1,2)]
  have pl: "length (pad_index q) = length (index q)" using assms(2) by (simp add: pads_ok_def)
  have n: "n < unat (index_write q) - unat (index_read q)"
    using assms(3) l(1) c(2) by (simp add: unat_sub word_le_nat_alt)
  have "live_entries q ! n = index q ! (unat (index_read q) + n)"
    using n c(3) by (simp add: live_entries_def)
  moreover have "live_pads q ! n = pad_index q ! (unat (index_read q) + n)"
    using n c(3) pl by (simp add: live_pads_def)
  moreover have "n < length (live_entries q)" "n < length (live_pads q)"
    using assms(3) l by simp_all
  ultimately show ?thesis by (simp add: live_lens_def len_at_def)
qed

lemma pop_item_reports:
  assumes inv: "slab_inv_pad q" and ne: "index_read q < index_write q"
  defines "a \<equiv> index q ! unat (index_read q)"
  defines "q2 \<equiv> q\<lparr>index_read := index_read q + 1, read_pos := read_pos q + a\<rparr>"
  shows "fst (ANB_fifoslab_pop_item q) = hd (live_lens q)" and "hd (live_entries q) = a"
    and "live_lens q2 = tl (live_lens q)" and "snd (ANB_fifoslab_pop_item q) = drain_reset q2"
proof -
  have c: "cursors_ok q" and pk: "pads_ok q"
    using inv by (simp_all add: slab_inv_pad_def slab_inv_def)
  note fr = pads_ok_front(2,3) [OF c pk ne, of "read_pos q + a"]
  show "hd (live_entries q) = a" by (subst fr(2)) (simp add: a_def)
  have ll: "live_lens q = (a - ucast (pad_index q ! unat (index_read q))) # live_lens q2"
    unfolding live_lens_def by (subst fr(1), subst fr(2)) (simp add: a_def q2_def)
  show "live_lens q2 = tl (live_lens q)" by (simp add: ll)
  show "fst (ANB_fifoslab_pop_item q) = hd (live_lens q)"
    by (simp add: pop_item_step [OF ne] ll a_def)
  show "snd (ANB_fifoslab_pop_item q) = drain_reset q2"
    by (simp add: pop_item_step [OF ne] a_def q2_def)
qed

text \<open>
  Claim C1, as amended. After a non-empty sequence of pushes onto a queue that satisfies
  the invariant, the lengths reported for the live items are those reported before,
  followed by the pushed lengths in push order: \<^verbatim>\<open>peek_item(n)\<close> stores the \<open>n\<close>-th of
  them, the original length and not the aligned footprint, and \<^verbatim>\<open>pop_item()\<close> returns
  the first. When the retired item's aligned length does not exhaust the live bytes,
  \<^verbatim>\<open>pop_item()\<close> leaves \<open>read_pos\<close> advanced by that aligned length and \<open>index_read\<close> by 1;
  when it does, all four cursors are 0.
\<close>

theorem item_lengths_preserved:
  assumes "slab_inv_pad q" and "pushed q items q'" and "items \<noteq> []"
  shows "live_lens q' = live_lens q @ map snd items
     \<and> (\<forall>n < length (live_lens q').
          ANB_fifoslab_peek_item q' (of_nat n) (Some v)
            = Inr (Some (view_at q' n), Some (live_lens q' ! n), q'))
     \<and> fst (ANB_fifoslab_pop_item q') = hd (live_lens q')
     \<and> (if read_pos q' + hd (live_entries q') = write_pos q'
         then cursors (snd (ANB_fifoslab_pop_item q')) = (0, 0, 0, 0)
         else cursors (snd (ANB_fifoslab_pop_item q'))
                = (read_pos q' + hd (live_entries q'), write_pos q', index_read q' + 1, index_write q')
              \<and> live_lens (snd (ANB_fifoslab_pop_item q')) = tl (live_lens q'))"
proof -
  note ok = pushed_ok [OF assms(2,1)]
  then have inv': "slab_inv_pad q'" and ll: "live_lens q' = live_lens q @ map snd items" by simp_all
  have c: "cursors_ok q'" and pk: "pads_ok q'"
    using inv' by (simp_all add: slab_inv_pad_def slab_inv_def)
  note d = cursors_okD [OF c]
  note len = length_live_lens [OF c pk]
  have 1: "\<forall>n < length (live_lens q').
          ANB_fifoslab_peek_item q' (of_nat n) (Some v)
            = Inr (Some (view_at q' n), Some (live_lens q' ! n), q')"
  proof (intro allI impI)
    fix n assume n: "n < length (live_lens q')"
    then have "n < unat (index_write q' - index_read q')" using len(1) by simp
    note i = live_index_nat [OF d(5) this]
    show "ANB_fifoslab_peek_item q' (of_nat n) (Some v)
            = Inr (Some (view_at q' n), Some (live_lens q' ! n), q')"
      by (simp add: peek_item_in_range [OF d(5) i(1)] i(2) live_lens_nth [OF c pk n])
  qed
  have "length (live_lens q') \<noteq> 0" using assms(3) ll by simp
  then have "unat (index_write q') - unat (index_read q') \<noteq> 0"
    using len(1) d(2) by (simp add: unat_sub word_le_nat_alt)
  then have ne: "index_read q' < index_write q'" by (simp add: word_less_nat_alt)
  note r = pop_item_reports [OF inv' ne]
  let ?q2 = "q'\<lparr>index_read := index_read q' + 1,
                 read_pos := read_pos q' + index q' ! unat (index_read q')\<rparr>"
  have 3: "if read_pos q' + hd (live_entries q') = write_pos q'
         then cursors (snd (ANB_fifoslab_pop_item q')) = (0, 0, 0, 0)
         else cursors (snd (ANB_fifoslab_pop_item q'))
                = (read_pos q' + hd (live_entries q'), write_pos q', index_read q' + 1, index_write q')
              \<and> live_lens (snd (ANB_fifoslab_pop_item q')) = tl (live_lens q')"
  proof (cases "read_pos q' + hd (live_entries q') = write_pos q'")
    case True
    then have "read_pos ?q2 = write_pos ?q2" by (simp add: r(2))
    then have "cursors (drain_reset ?q2) = (0, 0, 0, 0)" by (rule drain_reset_cursors(1))
    then show ?thesis using True by (simp add: r(4))
  next
    case False
    then have "read_pos ?q2 \<noteq> write_pos ?q2" by (simp add: r(2))
    then have "drain_reset ?q2 = ?q2" by (rule drain_reset_cursors(2))
    then show ?thesis using False r(3) by (simp add: r(4) r(2) cursors_def)
  qed
  from ll 1 r(1) 3 show ?thesis by blast
qed

lemma ex_pushed: "pushed ex_fresh [(ex_bytes, 6)] ex1" "pushed ex_fresh [(ex_bytes, 6), (ex_bytes, 6)] ex2"
proof -
  have a: "pushed ex2 [] ex2" "pushed ex1 [] ex1" by (rule pushed_Nil)+
  have b: "pushed ex1 [(ex_bytes, 6)] ex2"
    using ex_fits(4) ex_push2 a(1) by (rule pushed_Cons)
  show "pushed ex_fresh [(ex_bytes, 6)] ex1"
    using ex_fits(3) ex_push1 a(2) by (rule pushed_Cons)
  show "pushed ex_fresh [(ex_bytes, 6), (ex_bytes, 6)] ex2"
    using ex_fits(3) ex_push1 b by (rule pushed_Cons)
qed

text \<open>
  Claim C1 as stated fails for the last live item: after one push of 6 bytes,
  \<^verbatim>\<open>pop_item()\<close> returns 6, but it leaves \<open>read_pos\<close> and \<open>index_read\<close> at 0, not advanced
  by the aligned length 16 and by 1.
\<close>

theorem pop_item_drain_counterexample:
  "pushed ex_fresh [(ex_bytes, 6)] ex1
   \<and> fst (ANB_fifoslab_pop_item ex1) = 6 \<and> index ex1 ! unat (index_read ex1) = 16
   \<and> read_pos (snd (ANB_fifoslab_pop_item ex1)) \<noteq> read_pos ex1 + 16
   \<and> index_read (snd (ANB_fifoslab_pop_item ex1)) \<noteq> index_read ex1 + 1"
proof -
  have "fst (ANB_fifoslab_pop_item ex1) = 6" by code_simp
  moreover have "index ex1 ! unat (index_read ex1) = 16" by (simp add: ex1_def)
  moreover have "read_pos (snd (ANB_fifoslab_pop_item ex1)) = 0" by code_simp
  moreover have "index_read (snd (ANB_fifoslab_pop_item ex1)) = 0" by code_simp
  moreover have "read_pos ex1 + 16 = 16" "index_read ex1 + 1 = 1" by (simp_all add: ex1_def)
  ultimately show ?thesis using ex_pushed(1) by simp
qed


theorem item_lengths_preserved_witness:
  "slab_inv_pad ex_fresh \<and> pushed ex_fresh [(ex_bytes, 6), (ex_bytes, 6)] ex2
   \<and> [(ex_bytes, 6 :: size_t), (ex_bytes, 6)] \<noteq> []
   \<and> live_lens ex2 = [6, 6] \<and> live_entries ex2 = [16, 16]
   \<and> ANB_fifoslab_peek_item ex2 1 (Some 0) = Inr (Some 16, Some 6, ex2)
   \<and> fst (ANB_fifoslab_pop_item ex2) = 6
   \<and> cursors (snd (ANB_fifoslab_pop_item ex2)) = (16, 32, 1, 2)
   \<and> live_lens (snd (ANB_fifoslab_pop_item ex2)) = [6]"
proof -
  have h1: "slab_inv_pad ex_fresh" using ex_reach(1) by (rule reach_inv)
  have h3: "[(ex_bytes, 6 :: size_t), (ex_bytes, 6)] \<noteq> []" by simp
  note t = item_lengths_preserved [OF h1 ex_pushed(2) h3, of 0]
  have e: "live_lens ex_fresh = []" "live_entries ex2 = [16, 16]" "view_at ex2 (Suc 0) = 16"
    "read_pos ex2 + hd (live_entries ex2) \<noteq> write_pos ex2"
    "(read_pos ex2 + hd (live_entries ex2), write_pos ex2, index_read ex2 + 1, index_write ex2)
       = (16, 32, 1, 2)"
    by code_simp+
  have a: "live_lens ex2 = [6, 6]" using t e(1) by simp
  have "(1::nat) < length (live_lens ex2)" by (simp add: a)
  with t have "ANB_fifoslab_peek_item ex2 (of_nat 1) (Some 0)
      = Inr (Some (view_at ex2 1), Some (live_lens ex2 ! 1), ex2)" by blast
  then have b: "ANB_fifoslab_peek_item ex2 1 (Some 0) = Inr (Some 16, Some 6, ex2)"
    by (simp add: a e(3))
  have c: "fst (ANB_fifoslab_pop_item ex2) = 6" using t a by simp
  have d: "cursors (snd (ANB_fifoslab_pop_item ex2)) = (16, 32, 1, 2)
     \<and> live_lens (snd (ANB_fifoslab_pop_item ex2)) = [6]"
    using t e(4) a by (simp add: e(5))
  show ?thesis using h1 ex_pushed(2) a e(2) b c d by simp
qed

end
